theory Spec2Isabelle
  imports Main "HOL-Library.Word" "HOL-Library.AList"
begin

section \<open>Common parts of the cache engines\<close>

text \<open>
  The exceptions thrown by the engines (CachePolicy.h and the four .cpp files), as values.
  \<open>null_dereference\<close> stands for a read through a null pointer and
  \<open>front_of_empty_list\<close> for \<open>std::list::front()\<close> on an empty list; the C++ code
  has undefined behaviour there, and the model stops with these values instead.
\<close>

datatype error =
    InvalidCapacityException int
  | invalid_argument
  | out_of_range
  | runtime_error
  | null_dereference
  | front_of_empty_list

text \<open>
  \<open>std::chrono::steady_clock::time_point\<close>: a signed 64-bit tick count.  Only the
  comparison \<open><\<close> and the constants \<open>max()\<close> and \<open>min()\<close> are used by the code.
\<close>

type_synonym TimeStamp = "64 word"

definition ts_less :: "TimeStamp \<Rightarrow> TimeStamp \<Rightarrow> bool" where
  "ts_less a b = (sint a < sint b)"

definition TimeStamp_max :: TimeStamp where
  "TimeStamp_max = 9223372036854775807"

definition TimeStamp_min :: TimeStamp where
  "TimeStamp_min = - 9223372036854775808"

text \<open>
  \<open>static_cast<size_t>(i)\<close> for a C++ \<open>int\<close>: the value modulo \<open>2^64\<close>, so a
  negative \<open>i\<close> becomes \<open>i + 2^64\<close>.  The engines cast \<open>capacity_\<close> and \<open>k_\<close> this way
  before they compare them with a container's \<open>size()\<close>.
\<close>

definition size_t_of :: "int \<Rightarrow> nat" where
  "size_t_of i = (if i < 0 then nat (i + 2 ^ 64) else nat i)"

text \<open>
  The C++ type \<open>int\<close> has 32 bits; \<open>INT_MAX\<close> is its largest value.  \<open>int_wrap i\<close> is
  what an \<open>int\<close> holds after a computation whose exact result is \<open>i\<close>: \<open>i\<close> itself when
  it fits, and the two's-complement value otherwise (\<open>INT_MAX + 1\<close> becomes \<open>INT_MIN\<close>).
  The language leaves signed overflow undefined; the wrap-around is what the compiled
  increments \<open>old_freq + 1\<close> and \<open>min_frequency_++\<close> of the LFU engine do.
\<close>

definition INT_MAX :: int where
  "INT_MAX = 2147483647"

definition int_wrap :: "int \<Rightarrow> int" where
  "int_wrap i = (i + 2147483648) mod 4294967296 - 2147483648"

section \<open>LRU-K engine (LruKCache.h, LruKCache.cpp)\<close>

text \<open>
  The two \<open>std::unordered_map\<close>s of the LRU-K engine are association lists with distinct
  keys: \<open>findVictimKey\<close> iterates over them, and the list order is the iteration order
  (which C++ leaves unspecified; the theorems on \<open>findVictimKey\<close> hold for every order).
  \<open>find\<close> is \<open>map_of\<close>, \<open>m[key] = r\<close> is \<open>AList.update\<close>, \<open>erase\<close> is
  \<open>AList.delete\<close>, \<open>size()\<close> is \<open>length\<close>.  A \<open>std::list\<close> of access times is a
  list, front first.  The reading of the clock (\<open>getCurrentTime\<close>) is the argument
  \<open>now\<close> of the operation that reads it.
\<close>

record 'k HistoryRecord =
  h_key :: 'k
  h_access_times :: "TimeStamp list"

record ('k, 'v) CacheRecord =
  c_key :: 'k
  c_value :: 'v
  c_access_times :: "TimeStamp list"

record ('k, 'v) LruKCache =
  lruk_capacity :: int
  lruk_k :: int
  lruk_history :: "('k \<times> 'k HistoryRecord) list"
  lruk_cache :: "('k \<times> ('k, 'v) CacheRecord) list"

definition lruk_new :: "int \<Rightarrow> int \<Rightarrow> error + ('k, 'v) LruKCache" where
  "lruk_new capacity k =
     (if capacity \<le> 0 then Inl (InvalidCapacityException capacity)
      else if k \<le> 0 then Inl invalid_argument
      else Inr \<lparr>lruk_capacity = capacity, lruk_k = k, lruk_history = [], lruk_cache = []\<rparr>)"

text \<open>push_back of the new time, then pop_front when more than K times are held.\<close>

definition push_capped :: "int \<Rightarrow> TimeStamp \<Rightarrow> TimeStamp list \<Rightarrow> TimeStamp list" where
  "push_capped k now ts =
     (let ts' = ts @ [now] in if length ts' > size_t_of k then tl ts' else ts')"

definition recordHistoryAccess ::
  "'k \<Rightarrow> TimeStamp \<Rightarrow> ('k, 'v) LruKCache \<Rightarrow> ('k, 'v) LruKCache" where
  "recordHistoryAccess key now s =
     (case map_of (lruk_history s) key of
        None \<Rightarrow>
          s\<lparr>lruk_history :=
              AList.update key \<lparr>h_key = key, h_access_times = [now]\<rparr> (lruk_history s)\<rparr>
      | Some r \<Rightarrow>
          s\<lparr>lruk_history :=
              AList.update key
                (r\<lparr>h_access_times := push_capped (lruk_k s) now (h_access_times r)\<rparr>)
                (lruk_history s)\<rparr>)"

definition recordCacheAccess ::
  "int \<Rightarrow> TimeStamp \<Rightarrow> ('k, 'v) CacheRecord \<Rightarrow> ('k, 'v) CacheRecord" where
  "recordCacheAccess k now r = r\<lparr>c_access_times := push_capped k now (c_access_times r)\<rparr>"

definition promoteToCache ::
  "'k \<Rightarrow> 'v \<Rightarrow> ('k, 'v) LruKCache \<Rightarrow> error + ('k, 'v) LruKCache" where
  "promoteToCache key val s =
     (case map_of (lruk_history s) key of
        None \<Rightarrow> Inl runtime_error
      | Some h \<Rightarrow>
          Inr (s\<lparr>lruk_cache :=
                   AList.update key
                     \<lparr>c_key = key, c_value = val, c_access_times = h_access_times h\<rparr>
                     (lruk_cache s),
                 lruk_history := AList.delete key (lruk_history s)\<rparr>))"

definition getCacheKthAccessTime :: "('k, 'v) CacheRecord \<Rightarrow> TimeStamp" where
  "getCacheKthAccessTime r =
     (if c_access_times r = [] then TimeStamp_min else last (c_access_times r))"

text \<open>
  The first loop of \<open>findVictimKey\<close>.  The accumulator is \<open>None\<close> while
  \<open>found_in_history\<close> is false, and \<open>Some (victim_key, earliest_time)\<close> afterwards.
\<close>

fun scan_history ::
  "int \<Rightarrow> ('k \<times> 'k HistoryRecord) list \<Rightarrow> ('k \<times> TimeStamp) option
     \<Rightarrow> error + ('k \<times> TimeStamp) option" where
  "scan_history k_val [] acc = Inr acc"
| "scan_history k_val ((key, record) # rest) acc =
     (if length (h_access_times record) < size_t_of k_val then
        (case h_access_times record of
           [] \<Rightarrow> Inl front_of_empty_list
         | first_access # _ \<Rightarrow>
             (case acc of
                None \<Rightarrow> scan_history k_val rest (Some (key, first_access))
              | Some (victim_key, earliest_time) \<Rightarrow>
                  if ts_less first_access earliest_time
                  then scan_history k_val rest (Some (key, first_access))
                  else scan_history k_val rest acc))
      else scan_history k_val rest acc)"

text \<open>The second loop: the accumulator is \<open>(victim_key, earliest_time)\<close>.\<close>

fun scan_cache ::
  "('k \<times> ('k, 'v) CacheRecord) list \<Rightarrow> 'k \<times> TimeStamp \<Rightarrow> 'k \<times> TimeStamp" where
  "scan_cache [] acc = acc"
| "scan_cache ((key, record) # rest) (victim_key, earliest_time) =
     (let kth_access = getCacheKthAccessTime record in
      if ts_less kth_access earliest_time
      then scan_cache rest (key, kth_access)
      else scan_cache rest (victim_key, earliest_time))"

definition findVictimKey :: "('k, 'v) LruKCache \<Rightarrow> error + 'k" where
  "findVictimKey s =
     (case scan_history (lruk_k s) (lruk_history s) None of
        Inl e \<Rightarrow> Inl e
      | Inr (Some (victim_key, _)) \<Rightarrow> Inr victim_key
      | Inr None \<Rightarrow>
          (case lruk_cache s of
             [] \<Rightarrow> Inl runtime_error
           | (first_key, _) # _ \<Rightarrow>
               Inr (fst (scan_cache (lruk_cache s) (first_key, TimeStamp_max)))))"

definition lruk_get ::
  "'k \<Rightarrow> TimeStamp \<Rightarrow> ('k, 'v) LruKCache \<Rightarrow> (error + 'v) \<times> ('k, 'v) LruKCache" where
  "lruk_get key now s =
     (case map_of (lruk_cache s) key of
        Some r \<Rightarrow>
          (Inr (c_value r),
           s\<lparr>lruk_cache :=
               AList.update key (recordCacheAccess (lruk_k s) now r) (lruk_cache s)\<rparr>)
      | None \<Rightarrow> (Inl out_of_range, s))"

definition lruk_put ::
  "'k \<Rightarrow> 'v \<Rightarrow> TimeStamp \<Rightarrow> ('k, 'v) LruKCache \<Rightarrow> error + ('k, 'v) LruKCache" where
  "lruk_put key val now s =
     (case map_of (lruk_cache s) key of
        Some r \<Rightarrow>
          Inr (s\<lparr>lruk_cache :=
                   AList.update key
                     (recordCacheAccess (lruk_k s) now (r\<lparr>c_value := val\<rparr>))
                     (lruk_cache s)\<rparr>)
      | None \<Rightarrow>
          (let s1 = recordHistoryAccess key now s in
           case map_of (lruk_history s1) key of
             None \<Rightarrow> Inr s1
           | Some h \<Rightarrow>
               if length (h_access_times h) \<ge> size_t_of (lruk_k s1) then
                 (if length (lruk_cache s1) \<ge> size_t_of (lruk_capacity s1) then
                    (case findVictimKey s1 of
                       Inl e \<Rightarrow> Inl e
                     | Inr victim_key \<Rightarrow>
                         (case map_of (lruk_cache s1) victim_key of
                            Some _ \<Rightarrow>
                              promoteToCache key val
                                (s1\<lparr>lruk_cache := AList.delete victim_key (lruk_cache s1)\<rparr>)
                          | None \<Rightarrow>
                              promoteToCache key val
                                (s1\<lparr>lruk_history :=
                                      AList.delete victim_key (lruk_history s1)\<rparr>)))
                  else promoteToCache key val s1)
               else Inr s1))"

definition lruk_contains :: "'k \<Rightarrow> ('k, 'v) LruKCache \<Rightarrow> bool" where
  "lruk_contains key s = (map_of (lruk_cache s) key \<noteq> None)"

definition lruk_size :: "('k, 'v) LruKCache \<Rightarrow> int" where
  "lruk_size s = int (length (lruk_cache s))"

definition lruk_clear :: "('k, 'v) LruKCache \<Rightarrow> ('k, 'v) LruKCache" where
  "lruk_clear s = s\<lparr>lruk_cache := [], lruk_history := []\<rparr>"

definition getHistoryAccessCount :: "'k \<Rightarrow> ('k, 'v) LruKCache \<Rightarrow> int" where
  "getHistoryAccessCount key s =
     (case map_of (lruk_history s) key of
        None \<Rightarrow> 0
      | Some h \<Rightarrow> int (length (h_access_times h)))"

section \<open>LRU engine (LruCache.h, LruCache.cpp)\<close>

text \<open>
  The index \<open>cache_\<close> maps a key to its node; a node is identified by its key, so the
  index is the map from a key to the value its node holds.  The doubly linked list
  between the sentinels \<open>head_\<close> and \<open>tail_\<close> is the list of its nodes' keys, the node
  after \<open>head_\<close> first: \<open>addToHead\<close> puts a key in front, \<open>removeNode\<close> takes the
  key of the unlinked node out, \<open>tail_->prev\<close> is the last key.  \<open>size_\<close> is the
  counter the code keeps beside the index.
\<close>

record ('k, 'v) LruCache =
  lru_capacity :: int
  lru_size :: int
  lru_cache :: "'k \<rightharpoonup> 'v"
  lru_list :: "'k list"

definition lru_new :: "int \<Rightarrow> error + ('k, 'v) LruCache" where
  "lru_new capacity =
     (if capacity \<le> 0 then Inl (InvalidCapacityException capacity)
      else Inr \<lparr>lru_capacity = capacity, lru_size = 0, lru_cache = Map.empty, lru_list = []\<rparr>)"

definition lru_addToHead :: "'k \<Rightarrow> 'k list \<Rightarrow> 'k list" where
  "lru_addToHead node xs = node # xs"

definition lru_removeNode :: "'k \<Rightarrow> 'k list \<Rightarrow> 'k list" where
  "lru_removeNode node xs = remove1 node xs"

definition lru_moveToHead :: "'k \<Rightarrow> 'k list \<Rightarrow> 'k list" where
  "lru_moveToHead node xs = lru_addToHead node (lru_removeNode node xs)"

text \<open>
  \<open>removeTail\<close> unlinks \<open>tail_->prev\<close>.  On an empty list that node is the sentinel
  \<open>head_\<close>, whose \<open>prev\<close> is null, and \<open>removeNode\<close> reads through it.
\<close>

definition lru_removeTail :: "'k list \<Rightarrow> error + ('k \<times> 'k list)" where
  "lru_removeTail xs = (if xs = [] then Inl null_dereference else Inr (last xs, butlast xs))"

definition lru_get ::
  "'k \<Rightarrow> ('k, 'v) LruCache \<Rightarrow> (error + 'v) \<times> ('k, 'v) LruCache" where
  "lru_get key s =
     (case lru_cache s key of
        None \<Rightarrow> (Inl out_of_range, s)
      | Some v \<Rightarrow> (Inr v, s\<lparr>lru_list := lru_moveToHead key (lru_list s)\<rparr>))"

definition lru_put ::
  "'k \<Rightarrow> 'v \<Rightarrow> ('k, 'v) LruCache \<Rightarrow> error + ('k, 'v) LruCache" where
  "lru_put key val s =
     (case lru_cache s key of
        Some _ \<Rightarrow>
          Inr (s\<lparr>lru_cache := (lru_cache s)(key \<mapsto> val),
                 lru_list := lru_moveToHead key (lru_list s)\<rparr>)
      | None \<Rightarrow>
          if lru_size s \<ge> lru_capacity s then
            (case lru_removeTail (lru_list s) of
               Inl e \<Rightarrow> Inl e
             | Inr (tail_key, xs) \<Rightarrow>
                 Inr (s\<lparr>lru_cache := ((lru_cache s)(tail_key := None))(key \<mapsto> val),
                        lru_size := lru_size s - 1 + 1,
                        lru_list := lru_addToHead key xs\<rparr>))
          else
            Inr (s\<lparr>lru_cache := (lru_cache s)(key \<mapsto> val),
                   lru_size := lru_size s + 1,
                   lru_list := lru_addToHead key (lru_list s)\<rparr>))"

definition lru_contains :: "'k \<Rightarrow> ('k, 'v) LruCache \<Rightarrow> bool" where
  "lru_contains key s = (lru_cache s key \<noteq> None)"

definition lru_clear :: "('k, 'v) LruCache \<Rightarrow> ('k, 'v) LruCache" where
  "lru_clear s = s\<lparr>lru_cache := Map.empty, lru_size := 0, lru_list := []\<rparr>"

section \<open>FIFO engine (FifoCache.h, FifoCache.cpp)\<close>

text \<open>
  As for LRU, the index is the map from a key to the value of its node, and the singly
  linked queue from \<open>head_\<close> (oldest) to \<open>tail_\<close> (newest) is the list of its nodes' keys.
\<close>

record ('k, 'v) FifoCache =
  fifo_capacity :: int
  fifo_size :: int
  fifo_cache :: "'k \<rightharpoonup> 'v"
  fifo_queue :: "'k list"

definition fifo_new :: "int \<Rightarrow> error + ('k, 'v) FifoCache" where
  "fifo_new capacity =
     (if capacity \<le> 0 then Inl (InvalidCapacityException capacity)
      else Inr \<lparr>fifo_capacity = capacity, fifo_size = 0, fifo_cache = Map.empty,
                fifo_queue = []\<rparr>)"

definition fifo_addToTail :: "'k \<Rightarrow> 'k list \<Rightarrow> 'k list" where
  "fifo_addToTail node q = q @ [node]"

text \<open>\<open>removeHead\<close> returns \<open>nullptr\<close> (here \<open>None\<close>) on an empty queue.\<close>

definition fifo_removeHead :: "'k list \<Rightarrow> 'k option \<times> 'k list" where
  "fifo_removeHead q = (case q of [] \<Rightarrow> (None, []) | old_head # rest \<Rightarrow> (Some old_head, rest))"

definition fifo_get ::
  "'k \<Rightarrow> ('k, 'v) FifoCache \<Rightarrow> (error + 'v) \<times> ('k, 'v) FifoCache" where
  "fifo_get key s =
     (case fifo_cache s key of
        None \<Rightarrow> (Inl out_of_range, s)
      | Some v \<Rightarrow> (Inr v, s))"

definition fifo_put :: "'k \<Rightarrow> 'v \<Rightarrow> ('k, 'v) FifoCache \<Rightarrow> ('k, 'v) FifoCache" where
  "fifo_put key val s =
     (case fifo_cache s key of
        Some _ \<Rightarrow> s\<lparr>fifo_cache := (fifo_cache s)(key \<mapsto> val)\<rparr>
      | None \<Rightarrow>
          (let s1 =
             (if fifo_size s \<ge> fifo_capacity s then
                (case fifo_removeHead (fifo_queue s) of
                   (None, q) \<Rightarrow> s\<lparr>fifo_queue := q\<rparr>
                 | (Some head_key, q) \<Rightarrow>
                     s\<lparr>fifo_cache := (fifo_cache s)(head_key := None),
                       fifo_size := fifo_size s - 1,
                       fifo_queue := q\<rparr>)
              else s)
           in s1\<lparr>fifo_cache := (fifo_cache s1)(key \<mapsto> val),
                 fifo_size := fifo_size s1 + 1,
                 fifo_queue := fifo_addToTail key (fifo_queue s1)\<rparr>))"

definition fifo_contains :: "'k \<Rightarrow> ('k, 'v) FifoCache \<Rightarrow> bool" where
  "fifo_contains key s = (fifo_cache s key \<noteq> None)"

definition fifo_clear :: "('k, 'v) FifoCache \<Rightarrow> ('k, 'v) FifoCache" where
  "fifo_clear s = s\<lparr>fifo_cache := Map.empty, fifo_size := 0, fifo_queue := []\<rparr>"

section \<open>LFU engine (LfuCache.h, LfuCache.cpp)\<close>

text \<open>
  A \<open>CacheNode\<close> is identified by its key; the index maps the key to the node's value and
  frequency.  A \<open>FrequencyBucket\<close> keeps the list of its nodes' keys (the node after the
  bucket's \<open>head\<close> sentinel first) and the counter \<open>size\<close>, which the code maintains
  separately and which \<open>empty()\<close> reads.  \<open>removeNode\<close> unlinks a node from the list
  it is in and decrements the counter of the bucket it is called on; the engine calls it on
  the bucket at the node's frequency, which is the bucket the node was added to when that
  frequency was written into it (\<open>lfu_struct\<close> below), so it removes the key from that
  bucket's list.
  Frequencies and \<open>min_frequency_\<close> are C++ \<open>int\<close>s: their increments wrap around
  at \<open>INT_MAX\<close> (\<open>int_wrap\<close>).  The counter \<open>size\<close> of a bucket is an \<open>int\<close> too; it
  counts nodes of the index, which has at most \<open>capacity_\<close> keys, an \<open>int\<close> as well.
  \<open>cache_.size()\<close> is the number of keys of the index.
\<close>

record 'v CacheNode =
  n_value :: 'v
  n_frequency :: int

record 'k FrequencyBucket =
  b_nodes :: "'k list"
  b_size :: int

record ('k, 'v) LfuCache =
  lfu_capacity :: int
  lfu_min_frequency :: int
  lfu_cache :: "'k \<rightharpoonup> 'v CacheNode"
  lfu_buckets :: "int \<rightharpoonup> 'k FrequencyBucket"

definition new_bucket :: "'k FrequencyBucket" where
  "new_bucket = \<lparr>b_nodes = [], b_size = 0\<rparr>"

definition b_addToHead :: "'k \<Rightarrow> 'k FrequencyBucket \<Rightarrow> 'k FrequencyBucket" where
  "b_addToHead node b = b\<lparr>b_nodes := node # b_nodes b, b_size := b_size b + 1\<rparr>"

definition b_removeNode :: "'k \<Rightarrow> 'k FrequencyBucket \<Rightarrow> 'k FrequencyBucket" where
  "b_removeNode node b = b\<lparr>b_nodes := remove1 node (b_nodes b), b_size := b_size b - 1\<rparr>"

definition b_removeTail :: "'k FrequencyBucket \<Rightarrow> 'k option \<times> 'k FrequencyBucket" where
  "b_removeTail b =
     (if b_size b = 0 then (None, b)
      else if b_nodes b = [] then (None, b)
      else (Some (last (b_nodes b)),
            b\<lparr>b_nodes := butlast (b_nodes b), b_size := b_size b - 1\<rparr>))"

definition b_empty :: "'k FrequencyBucket \<Rightarrow> bool" where
  "b_empty b = (b_size b = 0)"

definition lfu_new :: "int \<Rightarrow> error + ('k, 'v) LfuCache" where
  "lfu_new capacity =
     (if capacity \<le> 0 then Inl (InvalidCapacityException capacity)
      else Inr \<lparr>lfu_capacity = capacity, lfu_min_frequency = 1, lfu_cache = Map.empty,
                lfu_buckets = Map.empty\<rparr>)"

definition getOrCreateBucket ::
  "int \<Rightarrow> (int \<rightharpoonup> 'k FrequencyBucket) \<Rightarrow> (int \<rightharpoonup> 'k FrequencyBucket)" where
  "getOrCreateBucket frequency bs =
     (case bs frequency of None \<Rightarrow> bs(frequency \<mapsto> new_bucket) | Some _ \<Rightarrow> bs)"

text \<open>
  \<open>bucket_addToHead f node bs\<close> is \<open>getOrCreateBucket(f)->addToHead(node)\<close>.
\<close>

definition bucket_addToHead ::
  "int \<Rightarrow> 'k \<Rightarrow> (int \<rightharpoonup> 'k FrequencyBucket) \<Rightarrow> (int \<rightharpoonup> 'k FrequencyBucket)" where
  "bucket_addToHead frequency node bs =
     (let bs' = getOrCreateBucket frequency bs in
      case bs' frequency of
        None \<Rightarrow> bs'
      | Some b \<Rightarrow> bs'(frequency \<mapsto> b_addToHead node b))"

text \<open>
  \<open>updateFrequency key node s\<close>: \<open>node\<close> is the content of the node of \<open>key\<close> when the
  function is entered (the C++ function gets the pointer).
\<close>

definition updateFrequency ::
  "'k \<Rightarrow> 'v CacheNode \<Rightarrow> ('k, 'v) LfuCache \<Rightarrow> ('k, 'v) LfuCache" where
  "updateFrequency key node s =
     (let old_freq = n_frequency node;
          new_freq = int_wrap (old_freq + 1);
          s1 = (case lfu_buckets s old_freq of
                  None \<Rightarrow> s
                | Some old_bucket \<Rightarrow>
                    (let old_bucket' = b_removeNode key old_bucket in
                     s\<lparr>lfu_buckets := (lfu_buckets s)(old_freq \<mapsto> old_bucket'),
                       lfu_min_frequency :=
                         (if b_empty old_bucket' \<and> old_freq = lfu_min_frequency s
                          then int_wrap (lfu_min_frequency s + 1)
                          else lfu_min_frequency s)\<rparr>))
      in s1\<lparr>lfu_cache := (lfu_cache s1)(key \<mapsto> node\<lparr>n_frequency := new_freq\<rparr>),
            lfu_buckets := bucket_addToHead new_freq key (lfu_buckets s1)\<rparr>)"

definition evictLFU :: "('k, 'v) LfuCache \<Rightarrow> 'k option \<times> ('k, 'v) LfuCache" where
  "evictLFU s =
     (case lfu_buckets s (lfu_min_frequency s) of
        None \<Rightarrow> (None, s)
      | Some bucket \<Rightarrow>
          if b_empty bucket then (None, s)
          else (case b_removeTail bucket of
                  (evicted, bucket') \<Rightarrow>
                    (evicted,
                     s\<lparr>lfu_buckets := (lfu_buckets s)(lfu_min_frequency s \<mapsto> bucket')\<rparr>)))"

definition lfu_get ::
  "'k \<Rightarrow> ('k, 'v) LfuCache \<Rightarrow> (error + 'v) \<times> ('k, 'v) LfuCache" where
  "lfu_get key s =
     (case lfu_cache s key of
        None \<Rightarrow> (Inl out_of_range, s)
      | Some node \<Rightarrow> (Inr (n_value node), updateFrequency key node s))"

definition lfu_size :: "('k, 'v) LfuCache \<Rightarrow> int" where
  "lfu_size s = int (card (dom (lfu_cache s)))"

definition lfu_put :: "'k \<Rightarrow> 'v \<Rightarrow> ('k, 'v) LfuCache \<Rightarrow> ('k, 'v) LfuCache" where
  "lfu_put key val s =
     (if lfu_capacity s = 0 then s
      else
        (case lfu_cache s key of
           Some node \<Rightarrow> updateFrequency key (node\<lparr>n_value := val\<rparr>) s
         | None \<Rightarrow>
             (let s1 =
                (if card (dom (lfu_cache s)) \<ge> size_t_of (lfu_capacity s) then
                   (case evictLFU s of
                      (None, s') \<Rightarrow> s'
                    | (Some evicted_key, s') \<Rightarrow>
                        s'\<lparr>lfu_cache := (lfu_cache s')(evicted_key := None)\<rparr>)
                 else s)
              in s1\<lparr>lfu_buckets := bucket_addToHead 1 key (lfu_buckets s1),
                    lfu_min_frequency := 1,
                    lfu_cache := (lfu_cache s1)(key \<mapsto> \<lparr>n_value = val, n_frequency = 1\<rparr>)\<rparr>)))"

definition lfu_contains :: "'k \<Rightarrow> ('k, 'v) LfuCache \<Rightarrow> bool" where
  "lfu_contains key s = (lfu_cache s key \<noteq> None)"

definition lfu_clear :: "('k, 'v) LfuCache \<Rightarrow> ('k, 'v) LfuCache" where
  "lfu_clear s = s\<lparr>lfu_cache := Map.empty, lfu_buckets := Map.empty, lfu_min_frequency := 1\<rparr>"

definition getFrequency :: "'k \<Rightarrow> ('k, 'v) LfuCache \<Rightarrow> int" where
  "getFrequency key s = (case lfu_cache s key of None \<Rightarrow> 0 | Some node \<Rightarrow> n_frequency node)"

section \<open>The cache contract (CachePolicy.h)\<close>

text \<open>
  The abstract class \<open>CachePolicy\<close> with its four implementations, as a datatype, and
  the virtual calls as case distinctions.  An operation carries the clock reading that
  the LRU-K engine would take during it; the other engines ignore it.
\<close>

datatype ('k, 'v) CachePolicy =
    LRU "('k, 'v) LruCache"
  | LFU "('k, 'v) LfuCache"
  | FIFO "('k, 'v) FifoCache"
  | LRU_K "('k, 'v) LruKCache"

fun cp_get ::
  "'k \<Rightarrow> TimeStamp \<Rightarrow> ('k, 'v) CachePolicy \<Rightarrow> (error + 'v) \<times> ('k, 'v) CachePolicy" where
  "cp_get key now (LRU s) = (case lru_get key s of (r, s') \<Rightarrow> (r, LRU s'))"
| "cp_get key now (LFU s) = (case lfu_get key s of (r, s') \<Rightarrow> (r, LFU s'))"
| "cp_get key now (FIFO s) = (case fifo_get key s of (r, s') \<Rightarrow> (r, FIFO s'))"
| "cp_get key now (LRU_K s) = (case lruk_get key now s of (r, s') \<Rightarrow> (r, LRU_K s'))"

fun cp_put ::
  "'k \<Rightarrow> 'v \<Rightarrow> TimeStamp \<Rightarrow> ('k, 'v) CachePolicy \<Rightarrow> error + ('k, 'v) CachePolicy" where
  "cp_put key val now (LRU s) = map_sum id LRU (lru_put key val s)"
| "cp_put key val now (LFU s) = Inr (LFU (lfu_put key val s))"
| "cp_put key val now (FIFO s) = Inr (FIFO (fifo_put key val s))"
| "cp_put key val now (LRU_K s) = map_sum id LRU_K (lruk_put key val now s)"

fun cp_contains :: "'k \<Rightarrow> ('k, 'v) CachePolicy \<Rightarrow> bool" where
  "cp_contains key (LRU s) = lru_contains key s"
| "cp_contains key (LFU s) = lfu_contains key s"
| "cp_contains key (FIFO s) = fifo_contains key s"
| "cp_contains key (LRU_K s) = lruk_contains key s"

fun cp_size :: "('k, 'v) CachePolicy \<Rightarrow> int" where
  "cp_size (LRU s) = lru_size s"
| "cp_size (LFU s) = lfu_size s"
| "cp_size (FIFO s) = fifo_size s"
| "cp_size (LRU_K s) = lruk_size s"

fun cp_capacity :: "('k, 'v) CachePolicy \<Rightarrow> int" where
  "cp_capacity (LRU s) = lru_capacity s"
| "cp_capacity (LFU s) = lfu_capacity s"
| "cp_capacity (FIFO s) = fifo_capacity s"
| "cp_capacity (LRU_K s) = lruk_capacity s"

fun cp_clear :: "('k, 'v) CachePolicy \<Rightarrow> ('k, 'v) CachePolicy" where
  "cp_clear (LRU s) = LRU (lru_clear s)"
| "cp_clear (LFU s) = LFU (lfu_clear s)"
| "cp_clear (FIFO s) = FIFO (fifo_clear s)"
| "cp_clear (LRU_K s) = LRU_K (lruk_clear s)"

text \<open>
  A caller's operations.  A \<open>get\<close> that throws \<open>out_of_range\<close> is caught by the caller,
  who goes on with the engine as \<open>get\<close> left it; an exception of \<open>put\<close> ends the run.
\<close>

datatype ('k, 'v) cache_op = Get 'k | Put 'k 'v | Contains 'k | Clear

fun cp_apply ::
  "('k, 'v) cache_op \<times> TimeStamp \<Rightarrow> ('k, 'v) CachePolicy \<Rightarrow> error + ('k, 'v) CachePolicy" where
  "cp_apply (Get key, now) e = Inr (snd (cp_get key now e))"
| "cp_apply (Put key val, now) e = cp_put key val now e"
| "cp_apply (Contains key, now) e = Inr e"
| "cp_apply (Clear, now) e = Inr (cp_clear e)"

fun cp_run ::
  "(('k, 'v) cache_op \<times> TimeStamp) list \<Rightarrow> ('k, 'v) CachePolicy
     \<Rightarrow> error + ('k, 'v) CachePolicy" where
  "cp_run [] e = Inr e"
| "cp_run (x # xs) e = (case cp_apply x e of Inl err \<Rightarrow> Inl err | Inr e' \<Rightarrow> cp_run xs e')"

section \<open>Invariants of the engines\<close>

text \<open>
  The representation invariants that tie each index to its ordering structure.  They hold
  for a new engine and are kept by every operation (proved below), except the capacity
  bound of the LRU-K engine, which is therefore not part of \<open>lruk_inv\<close>.
\<close>

definition lru_inv :: "('k, 'v) LruCache \<Rightarrow> bool" where
  "lru_inv s \<longleftrightarrow>
     0 < lru_capacity s \<and> distinct (lru_list s) \<and> set (lru_list s) = dom (lru_cache s) \<and>
     lru_size s = int (length (lru_list s)) \<and> lru_size s \<le> lru_capacity s"

definition fifo_inv :: "('k, 'v) FifoCache \<Rightarrow> bool" where
  "fifo_inv s \<longleftrightarrow>
     0 < fifo_capacity s \<and> distinct (fifo_queue s) \<and>
     set (fifo_queue s) = dom (fifo_cache s) \<and>
     fifo_size s = int (length (fifo_queue s)) \<and> fifo_size s \<le> fifo_capacity s"

text \<open>
  \<open>lfu_struct\<close>: every bucket's counter is the length of its list, its list has no
  duplicates, a key is in the list of the bucket at \<open>f\<close> if and only if the index holds it
  with frequency \<open>f\<close>, and frequencies are at least 1.
\<close>

definition lfu_struct :: "('k, 'v) LfuCache \<Rightarrow> bool" where
  "lfu_struct s \<longleftrightarrow>
     0 < lfu_capacity s \<and> finite (dom (lfu_cache s)) \<and>
     (\<forall>f b. lfu_buckets s f = Some b \<longrightarrow>
        b_size b = int (length (b_nodes b)) \<and> distinct (b_nodes b) \<and>
        (\<forall>key \<in> set (b_nodes b). \<exists>node. lfu_cache s key = Some node \<and> n_frequency node = f)) \<and>
     (\<forall>key node. lfu_cache s key = Some node \<longrightarrow>
        1 \<le> n_frequency node \<and>
        (\<exists>b. lfu_buckets s (n_frequency node) = Some b \<and> key \<in> set (b_nodes b)))"

text \<open>
  \<open>least_nonempty bs m\<close>: \<open>m\<close> is the smallest frequency whose bucket exists and is not
  \<open>empty()\<close>.
\<close>

definition least_nonempty :: "(int \<rightharpoonup> 'k FrequencyBucket) \<Rightarrow> int \<Rightarrow> bool" where
  "least_nonempty bs m \<longleftrightarrow>
     (\<exists>b. bs m = Some b \<and> \<not> b_empty b) \<and>
     (\<forall>f b. bs f = Some b \<and> \<not> b_empty b \<longrightarrow> m \<le> f)"

definition min_frequency_ok :: "('k, 'v) LfuCache \<Rightarrow> bool" where
  "min_frequency_ok s \<longleftrightarrow>
     (if dom (lfu_cache s) = {} then lfu_min_frequency s = 1
      else least_nonempty (lfu_buckets s) (lfu_min_frequency s))"

definition lfu_inv :: "('k, 'v) LfuCache \<Rightarrow> bool" where
  "lfu_inv s \<longleftrightarrow> lfu_struct s \<and> min_frequency_ok s \<and> lfu_size s \<le> lfu_capacity s"

definition lruk_inv :: "('k, 'v) LruKCache \<Rightarrow> bool" where
  "lruk_inv s \<longleftrightarrow>
     0 < lruk_capacity s \<and> 0 < lruk_k s \<and>
     distinct (map fst (lruk_history s)) \<and> distinct (map fst (lruk_cache s)) \<and>
     fst ` set (lruk_history s) \<inter> fst ` set (lruk_cache s) = {} \<and>
     (\<forall>(key, h) \<in> set (lruk_history s).
        h_access_times h \<noteq> [] \<and> int (length (h_access_times h)) < lruk_k s) \<and>
     (\<forall>(key, r) \<in> set (lruk_cache s). c_access_times r \<noteq> [])"

text \<open>
  \<open>lruk_pending key s\<close> describes the engine inside \<open>put\<close>, after
  \<open>recordHistoryAccess\<close> has brought the history record of \<open>key\<close> to K access times
  and before \<open>promoteToCache\<close> has moved it.
\<close>

definition lruk_pending :: "'k \<Rightarrow> ('k, 'v) LruKCache \<Rightarrow> bool" where
  "lruk_pending key s \<longleftrightarrow>
     0 < lruk_capacity s \<and> 0 < lruk_k s \<and>
     distinct (map fst (lruk_history s)) \<and> distinct (map fst (lruk_cache s)) \<and>
     fst ` set (lruk_history s) \<inter> fst ` set (lruk_cache s) = {} \<and>
     (\<exists>h. map_of (lruk_history s) key = Some h \<and>
          int (length (h_access_times h)) = lruk_k s) \<and>
     (\<forall>(key', h) \<in> set (lruk_history s).
        h_access_times h \<noteq> [] \<and>
        (key' \<noteq> key \<longrightarrow> int (length (h_access_times h)) < lruk_k s)) \<and>
     (\<forall>(key', r) \<in> set (lruk_cache s). c_access_times r \<noteq> [])"

fun cp_inv :: "('k, 'v) CachePolicy \<Rightarrow> bool" where
  "cp_inv (LRU s) = lru_inv s"
| "cp_inv (LFU s) = lfu_inv s"
| "cp_inv (FIFO s) = fifo_inv s"
| "cp_inv (LRU_K s) = lruk_inv s"

text \<open>\<open>cp_value key e\<close>: the value held by the visible entry of \<open>key\<close>, if there is one.\<close>

fun cp_value :: "'k \<Rightarrow> ('k, 'v) CachePolicy \<Rightarrow> 'v option" where
  "cp_value key (LRU s) = lru_cache s key"
| "cp_value key (LFU s) = map_option n_value (lfu_cache s key)"
| "cp_value key (FIFO s) = fifo_cache s key"
| "cp_value key (LRU_K s) = map_option c_value (map_of (lruk_cache s) key)"

text \<open>The number of keys of the engine's index (for LRU-K, of the promoted table).\<close>

fun cp_index_count :: "('k, 'v) CachePolicy \<Rightarrow> nat" where
  "cp_index_count (LRU s) = card (dom (lru_cache s))"
| "cp_index_count (LFU s) = card (dom (lfu_cache s))"
| "cp_index_count (FIFO s) = card (dom (fifo_cache s))"
| "cp_index_count (LRU_K s) = card (fst ` set (lruk_cache s))"

text \<open>An engine as its constructor returns it.\<close>

fun cp_fresh :: "('k, 'v) CachePolicy \<Rightarrow> bool" where
  "cp_fresh (LRU s) = (lru_new (lru_capacity s) = Inr s)"
| "cp_fresh (LFU s) = (lfu_new (lfu_capacity s) = Inr s)"
| "cp_fresh (FIFO s) = (fifo_new (fifo_capacity s) = Inr s)"
| "cp_fresh (LRU_K s) = (lruk_new (lruk_capacity s) (lruk_k s) = Inr s)"

text \<open>
  \<open>lfu_freq_le n s\<close>: no frequency of the index is above \<open>n\<close>.  \<open>bucket_keys f s\<close>: the
  keys of the nodes of the bucket at frequency \<open>f\<close>, the node after the \<open>head\<close> sentinel
  first and the node before the \<open>tail\<close> sentinel last; empty when there is no such bucket.
\<close>

definition lfu_freq_le :: "int \<Rightarrow> ('k, 'v) LfuCache \<Rightarrow> bool" where
  "lfu_freq_le n s \<longleftrightarrow> (\<forall>key node. lfu_cache s key = Some node \<longrightarrow> n_frequency node \<le> n)"






section \<open>Properties\<close>

subsection \<open>The casts to \<open>size_t\<close>\<close>

lemma size_t_of_nonneg: "0 \<le> i \<Longrightarrow> size_t_of i = nat i"
  by (simp add: size_t_of_def)

lemma less_size_t_of: "0 < k \<Longrightarrow> n < size_t_of k \<longleftrightarrow> int n < k"
  by (auto simp: size_t_of_def)

lemma size_t_of_le: "0 < k \<Longrightarrow> size_t_of k \<le> n \<longleftrightarrow> k \<le> int n"
  by (auto simp: size_t_of_def)

lemma size_t_of_less: "0 < k \<Longrightarrow> size_t_of k < n \<longleftrightarrow> k < int n"
  by (auto simp: size_t_of_def)

subsection \<open>Evaluation of concrete runs\<close>

lemmas lruk_eval =
  lruk_new_def lruk_put_def lruk_get_def lruk_contains_def lruk_size_def
  recordHistoryAccess_def recordCacheAccess_def promoteToCache_def findVictimKey_def
  getCacheKthAccessTime_def push_capped_def ts_less_def TimeStamp_max_def size_t_of_def
  Let_def

lemmas lru_eval =
  lru_new_def lru_put_def lru_get_def lru_contains_def lru_moveToHead_def
  lru_addToHead_def lru_removeNode_def lru_removeTail_def

lemmas fifo_eval =
  fifo_new_def fifo_put_def fifo_get_def fifo_contains_def fifo_addToTail_def
  fifo_removeHead_def Let_def


subsection \<open>A get without a visible entry\<close>

text \<open>
  Claim C9.  For every engine, \<open>get\<close> on a key that has no visible entry (\<open>contains\<close> is
  false: the key is absent or, for LRU-K, only in the history table) throws
  \<open>out_of_range\<close> and returns the engine exactly as it was: index, ordering structure,
  frequencies, history and promoted table.
\<close>

theorem get_missing_key_not_found:
  "\<not> cp_contains key e \<Longrightarrow> cp_get key now e = (Inl out_of_range, e)"
  by (cases e)
     (simp_all add: lru_get_def lru_contains_def lfu_get_def lfu_contains_def
        fifo_get_def fifo_contains_def lruk_get_def lruk_contains_def)

theorem get_missing_key_not_found_witness:
  "\<not> cp_contains (1::int)
       (LRU_K \<lparr>lruk_capacity = 3, lruk_k = 2,
               lruk_history = [(1, \<lparr>h_key = 1, h_access_times = [10]\<rparr>)],
               lruk_cache = ([] :: (int \<times> (int, string) CacheRecord) list)\<rparr>) \<and>
   cp_get (1::int) 20
       (LRU_K \<lparr>lruk_capacity = 3, lruk_k = 2,
               lruk_history = [(1, \<lparr>h_key = 1, h_access_times = [10]\<rparr>)],
               lruk_cache = ([] :: (int \<times> (int, string) CacheRecord) list)\<rparr>) =
     (Inl out_of_range,
      LRU_K \<lparr>lruk_capacity = 3, lruk_k = 2,
              lruk_history = [(1, \<lparr>h_key = 1, h_access_times = [10]\<rparr>)],
              lruk_cache = []\<rparr>)"
proof -
  let ?e = "LRU_K \<lparr>lruk_capacity = 3, lruk_k = 2,
               lruk_history = [(1::int, \<lparr>h_key = 1, h_access_times = [10]\<rparr>)],
               lruk_cache = ([] :: (int \<times> (int, string) CacheRecord) list)\<rparr>"
  have invisible: "\<not> cp_contains 1 ?e" by (simp add: lruk_contains_def)
  from get_missing_key_not_found [OF invisible, of 20] invisible show ?thesis by simp
qed

subsection \<open>The capacity bound\<close>

text \<open>
  Claim C1.  The claim asks for \<open>size() \<le> capacity()\<close> after every operation of every
  engine.  The LRU-K engine breaks it: with capacity 1 and K = 2, key 1 is promoted by two
  puts, key 2 gets a history record by one put, and the second put of key 3 finds the
  promoted table full, picks the history record of key 2 as the victim, erases it (which
  frees no room in the promoted table) and promotes key 3.  The promoted table then holds
  two keys, so \<open>size()\<close> is 2 and \<open>capacity()\<close> is 1.  (For LRU and FIFO the bound
  holds on every run, for LFU on every run without an overflow of a frequency counter, and
  for all four engines \<open>size()\<close> is the number of keys of the index: see
  \<open>size_within_capacity_except_lruk\<close>, \<open>size_is_index_count\<close>, \<open>cp_run_inv\<close> and
  \<open>cp_run_inv_lfu\<close> at the end of the theory.)
\<close>

theorem lruk_size_exceeds_capacity:
  "lruk_new 1 2 = Inr \<lparr>lruk_capacity = 1, lruk_k = 2, lruk_history = [], lruk_cache = []\<rparr> \<and>
   cp_run [(Put (1::int) ''a'', 1), (Put 1 ''b'', 2), (Put 2 ''c'', 3), (Put 3 ''d'', 4),
           (Put 3 ''e'', 5)]
     (LRU_K \<lparr>lruk_capacity = 1, lruk_k = 2, lruk_history = [], lruk_cache = []\<rparr>) =
   Inr (LRU_K \<lparr>lruk_capacity = 1, lruk_k = 2, lruk_history = [],
          lruk_cache = [(1, \<lparr>c_key = 1, c_value = ''b'', c_access_times = [1, 2]\<rparr>),
                        (3, \<lparr>c_key = 3, c_value = ''e'', c_access_times = [4, 5]\<rparr>)]\<rparr>) \<and>
   cp_size (LRU_K \<lparr>lruk_capacity = 1, lruk_k = 2, lruk_history = [],
          lruk_cache = [(1::int, \<lparr>c_key = 1, c_value = ''b'', c_access_times = [1, 2]\<rparr>),
                        (3, \<lparr>c_key = 3, c_value = ''e'', c_access_times = [4, 5]\<rparr>)]\<rparr>) = 2 \<and>
   cp_capacity (LRU_K \<lparr>lruk_capacity = 1, lruk_k = 2, lruk_history = [],
          lruk_cache = [(1::int, \<lparr>c_key = 1, c_value = ''b'', c_access_times = [1, 2]\<rparr>),
                        (3, \<lparr>c_key = 3, c_value = ''e'', c_access_times = [4, 5]\<rparr>)]\<rparr>) = 1"
  by (simp add: lruk_eval)

subsection \<open>The value held for a key\<close>

lemma map_sum_eq_Inr: "map_sum f g x = Inr y \<longleftrightarrow> (\<exists>z. x = Inr z \<and> y = g z)"
  by (cases x) auto

lemma cp_contains_value: "cp_contains k e \<longleftrightarrow> cp_value k e \<noteq> None"
  by (cases e) (simp_all add: lru_contains_def lfu_contains_def fifo_contains_def lruk_contains_def)

lemma cp_get_value:
  "fst (cp_get k now e) = (case cp_value k e of None \<Rightarrow> Inl out_of_range | Some v \<Rightarrow> Inr v)"
  by (cases e)
     (simp_all add: lru_get_def lfu_get_def fifo_get_def lruk_get_def split: option.splits)

lemma promoteToCache_value:
  "promoteToCache key val s = Inr s' \<Longrightarrow> map_of (lruk_cache s') key = Some r \<Longrightarrow> c_value r = val"
  by (auto simp: promoteToCache_def update_conv' split: option.splits)

lemma promoteToCache_other:
  "promoteToCache key val s = Inr s' \<Longrightarrow> k \<noteq> key \<Longrightarrow>
   map_of (lruk_cache s') k = map_of (lruk_cache s) k"
  by (auto simp: promoteToCache_def update_conv' split: option.splits)

lemma recordHistoryAccess_cache [simp]:
  "lruk_cache (recordHistoryAccess key now s) = lruk_cache s"
  by (simp add: recordHistoryAccess_def split: option.splits)

lemma recordHistoryAccess_k [simp]:
  "lruk_k (recordHistoryAccess key now s) = lruk_k s"
  by (simp add: recordHistoryAccess_def split: option.splits)

lemma recordHistoryAccess_capacity [simp]:
  "lruk_capacity (recordHistoryAccess key now s) = lruk_capacity s"
  by (simp add: recordHistoryAccess_def split: option.splits)

lemma lruk_put_value:
  assumes "lruk_put k v now s = Inr s'" and "map_of (lruk_cache s') k = Some r"
  shows "c_value r = v"
proof (cases "map_of (lruk_cache s) k")
  case (Some r0)
  with assms show ?thesis
    by (auto simp: lruk_put_def update_conv' recordCacheAccess_def)
next
  case None
  with assms show ?thesis
    by (auto simp: lruk_put_def Let_def split: option.splits if_splits sum.splits
        dest: promoteToCache_value)
qed

lemma lruk_put_other:
  assumes "lruk_put key val now s = Inr s'" and "k \<noteq> key"
    and "map_of (lruk_cache s) k = Some r" and "map_of (lruk_cache s') k \<noteq> None"
  shows "map_of (lruk_cache s') k = Some r"
proof (cases "map_of (lruk_cache s) key")
  case (Some r0)
  with assms show ?thesis
    by (auto simp: lruk_put_def update_conv')
next
  case None
  with assms show ?thesis
    by (auto simp: lruk_put_def Let_def delete_conv' split: option.splits if_splits sum.splits
        dest!: promoteToCache_other [where k = k])
qed


lemma cp_put_value:
  assumes "cp_put k v now e = Inr e1" and "cp_contains k e1" and "0 < cp_capacity e"
  shows "cp_value k e1 = Some v"
proof (cases e)
  case (LRU s)
  with assms show ?thesis
    by (auto simp: lru_put_def lru_removeTail_def map_sum_eq_Inr
        split: option.splits if_splits sum.splits)
next
  case (LFU s)
  with assms show ?thesis
    by (auto simp: lfu_put_def updateFrequency_def evictLFU_def Let_def
        split: option.splits if_splits prod.splits)
next
  case (FIFO s)
  with assms show ?thesis
    by (auto simp: fifo_put_def Let_def split: option.splits if_splits prod.splits)
next
  case (LRU_K s)
  with assms obtain s' r where "lruk_put k v now s = Inr s'" and "e1 = LRU_K s'"
    and "map_of (lruk_cache s') k = Some r"
    by (auto simp: lruk_contains_def map_sum_eq_Inr)
  then show ?thesis
    using lruk_put_value [of k v now s s' r] by simp
qed

lemma cp_put_visible:
  assumes "cp_put k v now e = Inr e1" and "0 < cp_capacity e"
  shows "cp_contains k e1 \<or> (\<exists>s. e = LRU_K s)"
proof (cases e)
  case (LRU s)
  with assms show ?thesis
    by (auto simp: lru_put_def lru_contains_def lru_removeTail_def map_sum_eq_Inr
        split: option.splits if_splits sum.splits)
next
  case (LFU s)
  with assms show ?thesis
    by (auto simp: lfu_put_def lfu_contains_def updateFrequency_def evictLFU_def Let_def
        split: option.splits if_splits prod.splits)
next
  case (FIFO s)
  with assms show ?thesis
    by (auto simp: fifo_put_def fifo_contains_def Let_def
        split: option.splits if_splits prod.splits)
next
  case (LRU_K s)
  then show ?thesis by simp
qed

lemma cp_get_keeps_value: "cp_value k (snd (cp_get key now e)) = cp_value k e"
  by (cases e)
     (auto simp: lru_get_def lfu_get_def fifo_get_def lruk_get_def updateFrequency_def Let_def
        update_conv' recordCacheAccess_def split: option.splits)

lemma cp_put_keeps_value:
  assumes "cp_put key val now e = Inr e'" and "k \<noteq> key"
    and "cp_value k e = Some v" and "cp_contains k e'"
  shows "cp_value k e' = Some v"
proof (cases e)
  case (LRU s)
  with assms show ?thesis
    by (auto simp: lru_put_def lru_contains_def lru_removeTail_def map_sum_eq_Inr
        split: option.splits if_splits sum.splits)
next
  case (LFU s)
  with assms show ?thesis
    by (auto simp: lfu_put_def lfu_contains_def updateFrequency_def evictLFU_def Let_def
        split: option.splits if_splits prod.splits)
next
  case (FIFO s)
  with assms show ?thesis
    by (auto simp: fifo_put_def fifo_contains_def Let_def
        split: option.splits if_splits prod.splits)
next
  case (LRU_K s)
  with assms obtain s' r where "lruk_put key val now s = Inr s'" and "e' = LRU_K s'"
    and "map_of (lruk_cache s) k = Some r" and "c_value r = v"
    and "map_of (lruk_cache s') k \<noteq> None"
    by (auto simp: lruk_contains_def map_sum_eq_Inr)
  then show ?thesis
    using lruk_put_other [of key val now s s' k r] assms(2) by simp
qed

lemma cp_apply_keeps_value:
  assumes "cp_apply (op, t) e = Inr e'" and "\<forall>v'. op \<noteq> Put k v'"
    and "cp_value k e = Some v" and "cp_contains k e'"
  shows "cp_value k e' = Some v"
proof (cases op)
  case (Get key)
  with assms show ?thesis by (auto simp: cp_get_keeps_value)
next
  case (Put key val)
  with assms show ?thesis by (auto dest: cp_put_keeps_value)
next
  case (Contains key)
  with assms show ?thesis by auto
next
  case Clear
  with assms show ?thesis
    by (cases e)
       (auto simp: lru_clear_def lfu_clear_def fifo_clear_def lruk_clear_def
          lru_contains_def lfu_contains_def fifo_contains_def lruk_contains_def)
qed

lemma cp_run_keeps_value:
  assumes "cp_value k e1 = Some v" and "cp_run ops e1 = Inr e2"
    and "\<forall>x \<in> set ops. \<forall>v'. fst x \<noteq> Put k v'"
    and "\<forall>n \<le> length ops. \<forall>e'. cp_run (take n ops) e1 = Inr e' \<longrightarrow> cp_contains k e'"
  shows "cp_value k e2 = Some v"
  using assms
proof (induction ops arbitrary: e1)
  case Nil
  then show ?case by simp
next
  case (Cons x xs)
  obtain op t where x: "x = (op, t)" by (cases x)
  from Cons.prems(2) obtain e' where step: "cp_apply x e1 = Inr e'" and rest: "cp_run xs e' = Inr e2"
    by (auto split: sum.splits)
  have "cp_run (take 1 (x # xs)) e1 = Inr e'" using step by simp
  with Cons.prems(4) have vis: "cp_contains k e'"
    by (metis One_nat_def Suc_leI length_Cons zero_less_Suc)
  have val: "cp_value k e' = Some v"
    using cp_apply_keeps_value [of op t e1 e' k v] step x Cons.prems(1,3) vis by auto
  have later: "\<forall>n \<le> length xs. \<forall>e''. cp_run (take n xs) e' = Inr e'' \<longrightarrow> cp_contains k e''"
  proof (intro allI impI)
    fix n e''
    assume n: "n \<le> length xs" and r: "cp_run (take n xs) e' = Inr e''"
    have "cp_run (take (Suc n) (x # xs)) e1 = Inr e''" using step r by simp
    moreover have "Suc n \<le> length (x # xs)" using n by simp
    ultimately show "cp_contains k e''" using Cons.prems(4) by blast
  qed
  show ?case
    using Cons.IH [OF val rest _ later] Cons.prems(3) by simp
qed

subsection \<open>LRU-K: the choice of the victim\<close>

lemma sint_le_TimeStamp_max: "sint (a :: TimeStamp) \<le> sint TimeStamp_max"
  using sint_lt [of a] by (simp add: TimeStamp_max_def)

lemma scan_history_ok:
  "\<forall>(key, h) \<in> set hs. h_access_times h \<noteq> [] \<Longrightarrow> \<exists>r. scan_history kv hs acc = Inr r"
  by (induction hs arbitrary: acc) (auto split: list.splits option.splits)

lemma scan_history_result:
  "scan_history kv hs acc = Inr res \<Longrightarrow>
     (case res of
        None \<Rightarrow> acc = None \<and> (\<forall>(key, h) \<in> set hs. \<not> length (h_access_times h) < size_t_of kv)
      | Some (vk, t) \<Rightarrow>
          (acc = Some (vk, t) \<or>
           (\<exists>h rest. (vk, h) \<in> set hs \<and> length (h_access_times h) < size_t_of kv \<and>
                      h_access_times h = t # rest)) \<and>
          (\<forall>vk0 t0. acc = Some (vk0, t0) \<longrightarrow> \<not> ts_less t0 t) \<and>
          (\<forall>(key, h) \<in> set hs. length (h_access_times h) < size_t_of kv \<longrightarrow>
             (\<forall>t' rest'. h_access_times h = t' # rest' \<longrightarrow> \<not> ts_less t' t)))"
proof (induction hs arbitrary: acc)
  case Nil
  then show ?case by (auto simp: ts_less_def split: option.splits)
next
  case (Cons x hs)
  obtain key h where x: "x = (key, h)" by (cases x)
  show ?case
  proof (cases "length (h_access_times h) < size_t_of kv")
    case False
    with Cons.prems x have "scan_history kv hs acc = Inr res" by simp
    from Cons.IH [OF this] False x show ?thesis
      by (auto split: option.splits)
  next
    case True
    with Cons.prems x obtain first rest where ts: "h_access_times h = first # rest"
      by (auto split: list.splits)
    show ?thesis
    proof (cases "case acc of None \<Rightarrow> True | Some (vk0, t0) \<Rightarrow> ts_less first t0")
      case True
      with Cons.prems x ts \<open>length (h_access_times h) < size_t_of kv\<close>
      have "scan_history kv hs (Some (key, first)) = Inr res"
        by (auto split: option.splits)
      from Cons.IH [OF this] True x ts \<open>length (h_access_times h) < size_t_of kv\<close>
      show ?thesis
        by (auto simp: ts_less_def split: option.splits)
    next
      case False
      with Cons.prems x ts \<open>length (h_access_times h) < size_t_of kv\<close>
      have "scan_history kv hs acc = Inr res"
        by (auto split: option.splits)
      from Cons.IH [OF this] False x ts \<open>length (h_access_times h) < size_t_of kv\<close>
      show ?thesis
        by (auto simp: ts_less_def split: option.splits)
    qed
  qed
qed

lemma scan_cache_result:
  "scan_cache cs (vk, t) = (vk', t') \<Longrightarrow>
     ((vk', t') = (vk, t) \<or> (\<exists>r. (vk', r) \<in> set cs \<and> getCacheKthAccessTime r = t')) \<and>
     \<not> ts_less t t' \<and>
     (\<forall>(key, r) \<in> set cs. \<not> ts_less (getCacheKthAccessTime r) t')"
proof (induction cs arbitrary: vk t)
  case Nil
  then show ?case by (simp add: ts_less_def)
next
  case (Cons x cs)
  obtain key r where x: "x = (key, r)" by (cases x)
  show ?case
  proof (cases "ts_less (getCacheKthAccessTime r) t")
    case True
    with Cons.prems x have "scan_cache cs (key, getCacheKthAccessTime r) = (vk', t')"
      by (simp add: Let_def)
    from Cons.IH [OF this] True x show ?thesis
      by (auto simp: ts_less_def)
  next
    case False
    with Cons.prems x have "scan_cache cs (vk, t) = (vk', t')"
      by (simp add: Let_def)
    from Cons.IH [OF this] False x show ?thesis
      by (auto simp: ts_less_def)
  qed
qed


lemma findVictimKey_spec:
  assumes hist: "\<forall>(key, h) \<in> set (lruk_history s). h_access_times h \<noteq> []"
    and cache: "lruk_cache s \<noteq> []"
  shows "\<exists>victim. findVictimKey s = Inr victim \<and>
     (if \<exists>(key, h) \<in> set (lruk_history s). length (h_access_times h) < size_t_of (lruk_k s)
      then \<exists>h first rest. (victim, h) \<in> set (lruk_history s) \<and>
             length (h_access_times h) < size_t_of (lruk_k s) \<and> h_access_times h = first # rest \<and>
             (\<forall>(key', h') \<in> set (lruk_history s).
                length (h_access_times h') < size_t_of (lruk_k s) \<longrightarrow>
                (\<forall>first' rest'. h_access_times h' = first' # rest' \<longrightarrow> \<not> ts_less first' first))
      else \<exists>r. (victim, r) \<in> set (lruk_cache s) \<and>
             (\<forall>(key', r') \<in> set (lruk_cache s).
                \<not> ts_less (getCacheKthAccessTime r') (getCacheKthAccessTime r)))"
proof -
  from scan_history_ok [OF hist] obtain res
    where res: "scan_history (lruk_k s) (lruk_history s) None = Inr res" by blast
  note R = scan_history_result [OF res]
  show ?thesis
  proof (cases res)
    case (Some p)
    obtain vk t where p: "p = (vk, t)" by (cases p)
    from R Some p res show ?thesis
      by (auto simp: findVictimKey_def)
  next
    case None
    with R have none: "\<forall>(key, h) \<in> set (lruk_history s). \<not> length (h_access_times h) < size_t_of (lruk_k s)"
      by simp
    from cache obtain k0 r0 rest where cs: "lruk_cache s = (k0, r0) # rest"
      by (cases "lruk_cache s") auto
    obtain vk' t' where sc: "scan_cache (lruk_cache s) (k0, TimeStamp_max) = (vk', t')"
      by (cases "scan_cache (lruk_cache s) (k0, TimeStamp_max)")
    note C = scan_cache_result [OF sc]
    have fv: "findVictimKey s = Inr vk'"
      using res None cs sc by (simp add: findVictimKey_def)
    have "\<exists>r. (vk', r) \<in> set (lruk_cache s) \<and>
             (\<forall>(key', r') \<in> set (lruk_cache s).
                \<not> ts_less (getCacheKthAccessTime r') (getCacheKthAccessTime r))"
    proof (cases "(vk', t') = (k0, TimeStamp_max)")
      case True
      have "(k0, r0) \<in> set (lruk_cache s)" using cs by simp
      moreover have "\<forall>(key', r') \<in> set (lruk_cache s).
                \<not> ts_less (getCacheKthAccessTime r') (getCacheKthAccessTime r0)"
        using C True sint_le_TimeStamp_max [of "getCacheKthAccessTime r0"]
        by (fastforce simp: ts_less_def)
      ultimately show ?thesis using True by blast
    next
      case False
      with C show ?thesis by auto
    qed
    with fv none show ?thesis by auto
  qed
qed

text \<open>
  Claim C2, as amended.  \<open>findVictimKey\<close> is called by \<open>put\<close> when a promotion finds the
  promoted table full; then every access-time list is non-empty and the promoted table is
  not empty, and \<open>findVictimKey\<close> returns a victim.  If some history record has fewer than
  K access times, the victim is such a history record, and its first access time is the
  earliest among the history records with fewer than K access times.  Otherwise the victim
  is a promoted record whose most recent access time (the back of its queue, which is what
  \<open>getCacheKthAccessTime\<close> returns) is the earliest among all promoted records; the claim
  says the oldest time of the queue instead.
\<close>

theorem findVictimKey_selection:
  assumes "\<forall>(key, h) \<in> set (lruk_history s). h_access_times h \<noteq> []"
    and "\<forall>(key, r) \<in> set (lruk_cache s). c_access_times r \<noteq> []"
    and "lruk_cache s \<noteq> []" and "0 < lruk_k s"
  shows "\<exists>victim. findVictimKey s = Inr victim \<and>
     (if \<exists>(key, h) \<in> set (lruk_history s). int (length (h_access_times h)) < lruk_k s
      then \<exists>h. (victim, h) \<in> set (lruk_history s) \<and>
             int (length (h_access_times h)) < lruk_k s \<and>
             (\<forall>(key', h') \<in> set (lruk_history s).
                int (length (h_access_times h')) < lruk_k s \<longrightarrow>
                \<not> ts_less (hd (h_access_times h')) (hd (h_access_times h)))
      else \<exists>r. (victim, r) \<in> set (lruk_cache s) \<and>
             (\<forall>(key', r') \<in> set (lruk_cache s).
                \<not> ts_less (last (c_access_times r')) (last (c_access_times r))))"
proof -
  from findVictimKey_spec [OF assms(1,3), unfolded less_size_t_of [OF assms(4)]]
  obtain victim where
    fv: "findVictimKey s = Inr victim" and
    sel: "if \<exists>(key, h) \<in> set (lruk_history s). int (length (h_access_times h)) < lruk_k s
      then \<exists>h first rest. (victim, h) \<in> set (lruk_history s) \<and>
             int (length (h_access_times h)) < lruk_k s \<and> h_access_times h = first # rest \<and>
             (\<forall>(key', h') \<in> set (lruk_history s).
                int (length (h_access_times h')) < lruk_k s \<longrightarrow>
                (\<forall>first' rest'. h_access_times h' = first' # rest' \<longrightarrow> \<not> ts_less first' first))
      else \<exists>r. (victim, r) \<in> set (lruk_cache s) \<and>
             (\<forall>(key', r') \<in> set (lruk_cache s).
                \<not> ts_less (getCacheKthAccessTime r') (getCacheKthAccessTime r))"
    by blast
  show ?thesis
  proof (cases "\<exists>(key, h) \<in> set (lruk_history s). int (length (h_access_times h)) < lruk_k s")
    case True
    with sel obtain h first rest where h: "(victim, h) \<in> set (lruk_history s)"
      "int (length (h_access_times h)) < lruk_k s" "h_access_times h = first # rest"
      and least: "\<forall>(key', h') \<in> set (lruk_history s).
                int (length (h_access_times h')) < lruk_k s \<longrightarrow>
                (\<forall>first' rest'. h_access_times h' = first' # rest' \<longrightarrow> \<not> ts_less first' first)"
      by auto
    have "\<forall>(key', h') \<in> set (lruk_history s).
                int (length (h_access_times h')) < lruk_k s \<longrightarrow>
                \<not> ts_less (hd (h_access_times h')) (hd (h_access_times h))"
    proof (clarify)
      fix key' h'
      assume in': "(key', h') \<in> set (lruk_history s)"
        and lt: "int (length (h_access_times h')) < lruk_k s"
        and less: "ts_less (hd (h_access_times h')) (hd (h_access_times h))"
      from assms(1) in' obtain f' r' where "h_access_times h' = f' # r'"
        by (cases "h_access_times h'") auto
      with least in' lt less h(3) show False by fastforce
    qed
    with h(1,2) have "\<exists>h. (victim, h) \<in> set (lruk_history s) \<and>
             int (length (h_access_times h)) < lruk_k s \<and>
             (\<forall>(key', h') \<in> set (lruk_history s).
                int (length (h_access_times h')) < lruk_k s \<longrightarrow>
                \<not> ts_less (hd (h_access_times h')) (hd (h_access_times h)))"
      by blast
    with fv True show ?thesis by (intro exI [of _ victim]) (simp only: if_True simp_thms)
  next
    case False
    with sel obtain r where r: "(victim, r) \<in> set (lruk_cache s)"
      and least: "\<forall>(key', r') \<in> set (lruk_cache s).
                \<not> ts_less (getCacheKthAccessTime r') (getCacheKthAccessTime r)"
      by auto
    have "\<forall>(key', r') \<in> set (lruk_cache s).
                \<not> ts_less (last (c_access_times r')) (last (c_access_times r))"
    proof (clarify)
      fix key' r'
      assume in': "(key', r') \<in> set (lruk_cache s)"
        and less: "ts_less (last (c_access_times r')) (last (c_access_times r))"
      from assms(2) in' r have "c_access_times r' \<noteq> []" "c_access_times r \<noteq> []"
        by auto
      then have "getCacheKthAccessTime r' = last (c_access_times r')"
        "getCacheKthAccessTime r = last (c_access_times r)"
        by (simp_all add: getCacheKthAccessTime_def)
      with least in' less show False by auto
    qed
    with r have "\<exists>r. (victim, r) \<in> set (lruk_cache s) \<and>
             (\<forall>(key', r') \<in> set (lruk_cache s).
                \<not> ts_less (last (c_access_times r')) (last (c_access_times r)))"
      by blast
    with fv False show ?thesis by (intro exI [of _ victim]) (simp only: if_False simp_thms)
  qed
qed

theorem findVictimKey_selection_witness:
  "findVictimKey
     \<lparr>lruk_capacity = 1, lruk_k = 2,
      lruk_history = [(2::int, \<lparr>h_key = 2, h_access_times = [3]\<rparr>),
                      (3, \<lparr>h_key = 3, h_access_times = [4, 5]\<rparr>)],
      lruk_cache = [(1, \<lparr>c_key = 1, c_value = ''b'', c_access_times = [1, 2]\<rparr>)]\<rparr> = Inr 2"
proof -
  let ?st = "\<lparr>lruk_capacity = 1, lruk_k = 2,
      lruk_history = [(2::int, \<lparr>h_key = 2, h_access_times = [3]\<rparr>),
                      (3, \<lparr>h_key = 3, h_access_times = [4, 5]\<rparr>)],
      lruk_cache = [(1, \<lparr>c_key = 1, c_value = ''b'', c_access_times = [1, 2]\<rparr>)]\<rparr>"
  have h1: "\<forall>(key, h) \<in> set (lruk_history ?st). h_access_times h \<noteq> []" by simp
  have h2: "\<forall>(key, r) \<in> set (lruk_cache ?st). c_access_times r \<noteq> []" by simp
  have h3: "lruk_cache ?st \<noteq> []" by simp
  have h4: "0 < lruk_k ?st" by simp
  from findVictimKey_selection [OF h1 h2 h3 h4] obtain victim where
    v: "findVictimKey ?st = Inr victim"
    and "\<exists>h. (victim, h) \<in> set (lruk_history ?st) \<and> int (length (h_access_times h)) < lruk_k ?st"
    by auto
  then have "victim = 2" by auto
  with v show ?thesis by simp
qed

text \<open>
  Counterexample to claim C2 as stated: capacity 2, K = 2.  Key 2 is promoted with access
  times 5 and 6, key 1 with access times 1 and 10, and the second put of key 3 (at time 12)
  triggers an eviction when no history record has fewer than K access times.  The oldest
  time of key 1 (1) is earlier than the oldest time of key 2 (5), so the claim names key 1
  as the victim; \<open>findVictimKey\<close> returns key 2, and key 1 stays in the table.
\<close>

theorem findVictimKey_oldest_timestamp_counterexample:
  "cp_run [(Put (1::int) ''a'', 1), (Put 2 ''b'', 5), (Put 2 ''b'', 6), (Put 1 ''a'', 10),
           (Put 3 ''c'', 11)]
     (LRU_K \<lparr>lruk_capacity = 2, lruk_k = 2, lruk_history = [], lruk_cache = []\<rparr>) =
   Inr (LRU_K \<lparr>lruk_capacity = 2, lruk_k = 2,
          lruk_history = [(3, \<lparr>h_key = 3, h_access_times = [11]\<rparr>)],
          lruk_cache = [(2, \<lparr>c_key = 2, c_value = ''b'', c_access_times = [5, 6]\<rparr>),
                        (1, \<lparr>c_key = 1, c_value = ''a'', c_access_times = [1, 10]\<rparr>)]\<rparr>) \<and>
   recordHistoryAccess 3 12
     \<lparr>lruk_capacity = 2, lruk_k = 2,
      lruk_history = [(3::int, \<lparr>h_key = 3, h_access_times = [11]\<rparr>)],
      lruk_cache = [(2, \<lparr>c_key = 2, c_value = ''b'', c_access_times = [5, 6]\<rparr>),
                    (1, \<lparr>c_key = 1, c_value = ''a'', c_access_times = [1, 10]\<rparr>)]\<rparr> =
     \<lparr>lruk_capacity = 2, lruk_k = 2,
      lruk_history = [(3, \<lparr>h_key = 3, h_access_times = [11, 12]\<rparr>)],
      lruk_cache = [(2, \<lparr>c_key = 2, c_value = ''b'', c_access_times = [5, 6]\<rparr>),
                    (1, \<lparr>c_key = 1, c_value = ''a'', c_access_times = [1, 10]\<rparr>)]\<rparr> \<and>
   findVictimKey
     \<lparr>lruk_capacity = 2, lruk_k = 2,
      lruk_history = [(3::int, \<lparr>h_key = 3, h_access_times = [11, 12]\<rparr>)],
      lruk_cache = [(2, \<lparr>c_key = 2, c_value = ''b'', c_access_times = [5, 6]\<rparr>),
                    (1, \<lparr>c_key = 1, c_value = ''a'', c_access_times = [1, 10]\<rparr>)]\<rparr> = Inr 2 \<and>
   ts_less (hd [1, 10]) (hd [5, 6]) \<and>
   cp_run [(Put (1::int) ''a'', 1), (Put 2 ''b'', 5), (Put 2 ''b'', 6), (Put 1 ''a'', 10),
           (Put 3 ''c'', 11), (Put 3 ''c'', 12)]
     (LRU_K \<lparr>lruk_capacity = 2, lruk_k = 2, lruk_history = [], lruk_cache = []\<rparr>) =
   Inr (LRU_K \<lparr>lruk_capacity = 2, lruk_k = 2, lruk_history = [],
          lruk_cache = [(1, \<lparr>c_key = 1, c_value = ''a'', c_access_times = [1, 10]\<rparr>),
                        (3, \<lparr>c_key = 3, c_value = ''c'', c_access_times = [11, 12]\<rparr>)]\<rparr>)"
  by (simp add: lruk_eval)

subsection \<open>LRU-K: the invariant and the promotion\<close>

lemma alist_all_iff:
  "distinct (map fst al) \<Longrightarrow>
   (\<forall>(k, x) \<in> set al. P k x) \<longleftrightarrow> (\<forall>k x. map_of al k = Some x \<longrightarrow> P k x)"
  by (auto dest: map_of_SomeD)

lemma lruk_inv_alt:
  "lruk_inv s \<longleftrightarrow>
     0 < lruk_capacity s \<and> 0 < lruk_k s \<and>
     distinct (map fst (lruk_history s)) \<and> distinct (map fst (lruk_cache s)) \<and>
     dom (map_of (lruk_history s)) \<inter> dom (map_of (lruk_cache s)) = {} \<and>
     (\<forall>key h. map_of (lruk_history s) key = Some h \<longrightarrow>
        h_access_times h \<noteq> [] \<and> int (length (h_access_times h)) < lruk_k s) \<and>
     (\<forall>key r. map_of (lruk_cache s) key = Some r \<longrightarrow> c_access_times r \<noteq> [])"
  unfolding lruk_inv_def dom_map_of_conv_image_fst
  using alist_all_iff [of "lruk_history s"
      "\<lambda>key h. h_access_times h \<noteq> [] \<and> int (length (h_access_times h)) < lruk_k s"]
    alist_all_iff [of "lruk_cache s" "\<lambda>key r. c_access_times r \<noteq> []"]
  by blast

lemma lruk_pending_alt:
  "lruk_pending key s \<longleftrightarrow>
     0 < lruk_capacity s \<and> 0 < lruk_k s \<and>
     distinct (map fst (lruk_history s)) \<and> distinct (map fst (lruk_cache s)) \<and>
     dom (map_of (lruk_history s)) \<inter> dom (map_of (lruk_cache s)) = {} \<and>
     (\<exists>h. map_of (lruk_history s) key = Some h \<and>
          int (length (h_access_times h)) = lruk_k s) \<and>
     (\<forall>key' h. map_of (lruk_history s) key' = Some h \<longrightarrow>
        h_access_times h \<noteq> [] \<and>
        (key' \<noteq> key \<longrightarrow> int (length (h_access_times h)) < lruk_k s)) \<and>
     (\<forall>key' r. map_of (lruk_cache s) key' = Some r \<longrightarrow> c_access_times r \<noteq> [])"
  unfolding lruk_pending_def dom_map_of_conv_image_fst
  using alist_all_iff [of "lruk_history s"
      "\<lambda>key' h. h_access_times h \<noteq> [] \<and>
         (key' \<noteq> key \<longrightarrow> int (length (h_access_times h)) < lruk_k s)"]
    alist_all_iff [of "lruk_cache s" "\<lambda>key r. c_access_times r \<noteq> []"]
  by blast

lemma push_capped_nonempty: "0 < k \<Longrightarrow> push_capped k now ts \<noteq> []"
  by (cases ts) (auto simp: push_capped_def size_t_of_less Let_def)

lemma push_capped_below: "int (length ts) < k \<Longrightarrow> push_capped k now ts = ts @ [now]"
proof -
  assume lt: "int (length ts) < k"
  then have "0 < k" by linarith
  with lt show ?thesis by (simp add: push_capped_def size_t_of_less Let_def)
qed

lemma lruk_new_inv: "lruk_new capacity k = Inr s \<Longrightarrow> lruk_inv s"
  by (auto simp: lruk_new_def lruk_inv_def split: if_splits)

lemma lruk_clear_inv: "lruk_inv s \<Longrightarrow> lruk_inv (lruk_clear s)"
  by (simp add: lruk_inv_def lruk_clear_def)

lemma lruk_get_inv:
  assumes "lruk_inv s"
  shows "lruk_inv (snd (lruk_get key now s))"
proof (cases "map_of (lruk_cache s) key")
  case None
  with assms show ?thesis by (simp add: lruk_get_def)
next
  case (Some r)
  with assms show ?thesis
    unfolding lruk_inv_alt
    by (auto simp: lruk_get_def update_conv' distinct_update recordCacheAccess_def
        push_capped_nonempty split: if_splits)
qed


lemma count_below_k:
  "lruk_inv s \<Longrightarrow> 0 \<le> getHistoryAccessCount key s \<and> getHistoryAccessCount key s < lruk_k s"
  unfolding lruk_inv_alt by (auto simp: getHistoryAccessCount_def split: option.splits)

lemma recordHistoryAccess_history:
  assumes "lruk_inv s"
  shows "lruk_history (recordHistoryAccess key now s) =
         AList.update key
           (case map_of (lruk_history s) key of
              None \<Rightarrow> \<lparr>h_key = key, h_access_times = [now]\<rparr>
            | Some h \<Rightarrow> h\<lparr>h_access_times := h_access_times h @ [now]\<rparr>)
           (lruk_history s)"
  using assms unfolding lruk_inv_alt
  by (auto simp: recordHistoryAccess_def push_capped_below split: option.splits)

lemma recordHistoryAccess_inv:
  assumes "lruk_inv s" and "map_of (lruk_cache s) key = None"
    and "getHistoryAccessCount key s + 1 < lruk_k s"
  shows "lruk_inv (recordHistoryAccess key now s)"
  using assms(2,3) assms(1) [unfolded lruk_inv_alt]
  unfolding lruk_inv_alt recordHistoryAccess_history [OF assms(1)]
  by (auto simp: update_conv' distinct_update getHistoryAccessCount_def
      simp del: map_of_eq_Some_iff split: option.splits if_splits)

lemma recordHistoryAccess_pending:
  assumes "lruk_inv s" and "map_of (lruk_cache s) key = None"
    and "getHistoryAccessCount key s + 1 = lruk_k s"
  shows "lruk_pending key (recordHistoryAccess key now s)"
  using assms(2,3) assms(1) [unfolded lruk_inv_alt]
  unfolding lruk_pending_alt recordHistoryAccess_history [OF assms(1)]
  by (auto simp: update_conv' distinct_update getHistoryAccessCount_def
      simp del: map_of_eq_Some_iff split: option.splits if_splits)

lemma pending_delete_cache:
  "lruk_pending key s \<Longrightarrow>
   lruk_pending key (s\<lparr>lruk_cache := AList.delete victim (lruk_cache s)\<rparr>)"
  unfolding lruk_pending_alt
  by (auto simp: delete_conv' distinct_delete split: if_splits)

lemma pending_delete_history:
  "lruk_pending key s \<Longrightarrow> victim \<noteq> key \<Longrightarrow>
   lruk_pending key (s\<lparr>lruk_history := AList.delete victim (lruk_history s)\<rparr>)"
  unfolding lruk_pending_alt
  by (auto simp: delete_conv' distinct_delete split: if_splits)

lemma pending_promote:
  assumes "lruk_pending key s"
  shows "\<exists>s' h. promoteToCache key val s = Inr s' \<and> lruk_inv s' \<and>
           map_of (lruk_history s) key = Some h \<and>
           map_of (lruk_cache s') key =
             Some \<lparr>c_key = key, c_value = val, c_access_times = h_access_times h\<rparr> \<and>
           map_of (lruk_history s') key = None"
proof -
  from assms obtain h where h: "map_of (lruk_history s) key = Some h"
    unfolding lruk_pending_alt by blast
  let ?s' = "s\<lparr>lruk_cache :=
                   AList.update key
                     \<lparr>c_key = key, c_value = val, c_access_times = h_access_times h\<rparr>
                     (lruk_cache s),
                 lruk_history := AList.delete key (lruk_history s)\<rparr>"
  have p: "promoteToCache key val s = Inr ?s'"
    using h by (simp add: promoteToCache_def)
  have "lruk_inv ?s'"
    using assms h unfolding lruk_inv_alt lruk_pending_alt
    by (auto simp: update_conv' delete_conv' distinct_update distinct_delete split: if_splits)
  with p h show ?thesis
    by (auto simp: update_conv' delete_conv')
qed

lemma pending_victim:
  assumes "lruk_pending key s" and "lruk_cache s \<noteq> []"
  shows "\<exists>victim. findVictimKey s = Inr victim \<and>
           (map_of (lruk_cache s) victim \<noteq> None \<or> victim \<noteq> key)"
proof -
  have hist: "\<forall>(key, h) \<in> set (lruk_history s). h_access_times h \<noteq> []"
    using assms(1) unfolding lruk_pending_def by auto
  have kpos: "0 < lruk_k s" using assms(1) unfolding lruk_pending_def by simp
  from findVictimKey_spec [OF hist assms(2), unfolded less_size_t_of [OF kpos]]
  obtain victim where
    fv: "findVictimKey s = Inr victim" and
    sel: "if \<exists>(key, h) \<in> set (lruk_history s). int (length (h_access_times h)) < lruk_k s
      then \<exists>h first rest. (victim, h) \<in> set (lruk_history s) \<and>
             int (length (h_access_times h)) < lruk_k s \<and> h_access_times h = first # rest \<and>
             (\<forall>(key', h') \<in> set (lruk_history s).
                int (length (h_access_times h')) < lruk_k s \<longrightarrow>
                (\<forall>first' rest'. h_access_times h' = first' # rest' \<longrightarrow> \<not> ts_less first' first))
      else \<exists>r. (victim, r) \<in> set (lruk_cache s) \<and>
             (\<forall>(key', r') \<in> set (lruk_cache s).
                \<not> ts_less (getCacheKthAccessTime r') (getCacheKthAccessTime r))"
    by blast
  have "map_of (lruk_cache s) victim \<noteq> None \<or> victim \<noteq> key"
  proof (cases "\<exists>(key, h) \<in> set (lruk_history s). int (length (h_access_times h)) < lruk_k s")
    case True
    with sel obtain h where "(victim, h) \<in> set (lruk_history s)"
      "int (length (h_access_times h)) < lruk_k s" by auto
    moreover from assms(1) have "distinct (map fst (lruk_history s))"
      and "\<exists>h. map_of (lruk_history s) key = Some h \<and> int (length (h_access_times h)) = lruk_k s"
      unfolding lruk_pending_def by auto
    ultimately show ?thesis by (auto dest: eq_key_imp_eq_value)
  next
    case False
    with sel obtain r where "(victim, r) \<in> set (lruk_cache s)" by auto
    moreover from assms(1) have "distinct (map fst (lruk_cache s))"
      unfolding lruk_pending_def by auto
    ultimately show ?thesis by auto
  qed
  with fv show ?thesis by blast
qed


lemma recordHistoryAccess_lookup:
  assumes "lruk_inv s"
  shows "\<exists>h1. map_of (lruk_history (recordHistoryAccess key now s)) key = Some h1 \<and>
           h_access_times h1 =
             (case map_of (lruk_history s) key of None \<Rightarrow> [] | Some h \<Rightarrow> h_access_times h)
             @ [now] \<and>
           int (length (h_access_times h1)) = getHistoryAccessCount key s + 1"
  unfolding recordHistoryAccess_history [OF assms]
  by (auto simp: update_conv' getHistoryAccessCount_def split: option.splits)

lemma lruk_put_cached_inv:
  assumes "lruk_inv s" and "map_of (lruk_cache s) key = Some r"
  shows "\<exists>s'. lruk_put key val now s = Inr s' \<and> lruk_inv s'"
  using assms unfolding lruk_inv_alt
  by (auto simp: lruk_put_def update_conv' distinct_update recordCacheAccess_def
      push_capped_nonempty split: if_splits)

lemma lruk_put_below:
  assumes "lruk_inv s" and "map_of (lruk_cache s) key = None"
    and "getHistoryAccessCount key s + 1 < lruk_k s"
  shows "lruk_put key val now s = Inr (recordHistoryAccess key now s)"
proof -
  from recordHistoryAccess_lookup [OF assms(1), of key now] obtain h1 where
    "map_of (lruk_history (recordHistoryAccess key now s)) key = Some h1"
    "int (length (h_access_times h1)) = getHistoryAccessCount key s + 1" by blast
  moreover have "0 < lruk_k s" using assms(1) by (simp add: lruk_inv_def)
  ultimately show ?thesis
    using assms(2,3) by (simp add: lruk_put_def size_t_of_le Let_def)
qed

lemma lruk_put_promote:
  assumes inv: "lruk_inv s" and nc: "map_of (lruk_cache s) key = None"
    and cnt: "getHistoryAccessCount key s + 1 = lruk_k s"
  shows "\<exists>s'. lruk_put key val now s = Inr s' \<and> lruk_inv s' \<and>
           map_of (lruk_cache s') key =
             Some \<lparr>c_key = key, c_value = val,
                   c_access_times =
                     (case map_of (lruk_history s) key of
                        None \<Rightarrow> [] | Some h \<Rightarrow> h_access_times h) @ [now]\<rparr> \<and>
           map_of (lruk_history s') key = None"
proof -
  let ?s1 = "recordHistoryAccess key now s"
  let ?old = "case map_of (lruk_history s) key of None \<Rightarrow> [] | Some h \<Rightarrow> h_access_times h"
  from recordHistoryAccess_lookup [OF inv, of key now] obtain h1 where
    h1: "map_of (lruk_history ?s1) key = Some h1"
    and t1: "h_access_times h1 = ?old @ [now]"
    and l1: "int (length (h_access_times h1)) = getHistoryAccessCount key s + 1" by blast
  have pend: "lruk_pending key ?s1"
    by (rule recordHistoryAccess_pending [OF inv nc cnt])
  have cap: "0 < lruk_capacity s" and kpos: "0 < lruk_k s"
    using inv by (simp_all add: lruk_inv_def)
  show ?thesis
  proof (cases "int (length (lruk_cache ?s1)) \<ge> lruk_capacity ?s1")
    case False
    then have put: "lruk_put key val now s = promoteToCache key val ?s1"
      using nc h1 l1 cnt cap kpos by (simp add: lruk_put_def size_t_of_le Let_def)
    from pending_promote [OF pend, of val] h1 t1 put show ?thesis by auto
  next
    case True
    then have ne: "lruk_cache ?s1 \<noteq> []" using cap by auto
    from pending_victim [OF pend ne] obtain victim where
      fv: "findVictimKey ?s1 = Inr victim"
      and vk: "map_of (lruk_cache ?s1) victim \<noteq> None \<or> victim \<noteq> key" by blast
    show ?thesis
    proof (cases "map_of (lruk_cache ?s1) victim")
      case (Some r)
      let ?s2 = "?s1\<lparr>lruk_cache := AList.delete victim (lruk_cache ?s1)\<rparr>"
      have put: "lruk_put key val now s = promoteToCache key val ?s2"
        using nc h1 l1 cnt True fv Some cap kpos
        by (simp add: lruk_put_def size_t_of_le Let_def)
      have "lruk_pending key ?s2" by (rule pending_delete_cache [OF pend])
      from pending_promote [OF this, of val] h1 t1 put show ?thesis by auto
    next
      case None
      let ?s2 = "?s1\<lparr>lruk_history := AList.delete victim (lruk_history ?s1)\<rparr>"
      have put: "lruk_put key val now s = promoteToCache key val ?s2"
        using nc h1 l1 cnt True fv None cap kpos
        by (simp add: lruk_put_def size_t_of_le Let_def)
      from None vk have neq: "victim \<noteq> key" by simp
      have "lruk_pending key ?s2" by (rule pending_delete_history [OF pend neq])
      from pending_promote [OF this, of val] h1 t1 put neq show ?thesis
        by (auto simp: delete_conv')
    qed
  qed
qed

lemma lruk_put_inv:
  assumes "lruk_inv s"
  shows "\<exists>s'. lruk_put key val now s = Inr s' \<and> lruk_inv s'"
proof (cases "map_of (lruk_cache s) key")
  case (Some r)
  then show ?thesis by (rule lruk_put_cached_inv [OF assms])
next
  case None
  from count_below_k [OF assms, of key]
  consider "getHistoryAccessCount key s + 1 < lruk_k s"
    | "getHistoryAccessCount key s + 1 = lruk_k s" by linarith
  then show ?thesis
  proof cases
    case 1
    then show ?thesis
      using lruk_put_below [OF assms None 1] recordHistoryAccess_inv [OF assms None 1] by simp
  next
    case 2
    from lruk_put_promote [OF assms None 2] show ?thesis by blast
  qed
qed

lemma cp_apply_lruk_inv:
  assumes "lruk_inv s"
  shows "\<exists>s'. cp_apply x (LRU_K s) = Inr (LRU_K s') \<and> lruk_inv s'"
proof -
  obtain op now where x: "x = (op, now)" by (cases x)
  show ?thesis
  proof (cases op)
    case (Get key)
    with x assms show ?thesis
      using lruk_get_inv [OF assms, of key now]
      by (cases "lruk_get key now s") auto
  next
    case (Put key val)
    with x lruk_put_inv [OF assms, of key val now] show ?thesis by auto
  next
    case (Contains key)
    with x assms show ?thesis by simp
  next
    case Clear
    with x lruk_clear_inv [OF assms] show ?thesis by simp
  qed
qed

lemma cp_run_lruk_inv:
  "lruk_inv s \<Longrightarrow> \<exists>s'. cp_run ops (LRU_K s) = Inr (LRU_K s') \<and> lruk_inv s'"
proof (induction ops arbitrary: s)
  case Nil
  then show ?case by simp
next
  case (Cons x ops)
  from cp_apply_lruk_inv [OF Cons.prems, of x] obtain s1 where
    "cp_apply x (LRU_K s) = Inr (LRU_K s1)" "lruk_inv s1" by blast
  with Cons.IH [of s1] show ?case by simp
qed

lemma keys_delete: "fst ` set (AList.delete k al) = fst ` set al - {k}"
proof -
  have "set (map fst (AList.delete k al)) = set (map fst al) - {k}"
    by (simp add: delete_keys)
  then show ?thesis by simp
qed

lemma lruk_get_history [simp]: "lruk_history (snd (lruk_get key now s)) = lruk_history s"
  by (simp add: lruk_get_def split: option.splits)

lemma promoteToCache_effect:
  assumes "promoteToCache key val s = Inr s'"
  shows "fst ` set (lruk_history s') = fst ` set (lruk_history s) - {key} \<and>
         map_of (lruk_cache s') key \<noteq> None"
proof -
  from assms obtain h where "map_of (lruk_history s) key = Some h"
    by (auto simp: promoteToCache_def split: option.splits)
  with assms have
    "lruk_history s' = AList.delete key (lruk_history s)"
    "lruk_cache s' = AList.update key
       \<lparr>c_key = key, c_value = val, c_access_times = h_access_times h\<rparr> (lruk_cache s)"
    by (auto simp: promoteToCache_def)
  then show ?thesis by (simp add: keys_delete update_conv')
qed

lemma recordHistoryAccess_keys:
  "fst ` set (lruk_history (recordHistoryAccess key now s)) =
   insert key (fst ` set (lruk_history s))"
  by (auto simp: recordHistoryAccess_def dom_update split: option.splits)

lemma lruk_put_history_loss:
  assumes "key \<in> fst ` set (lruk_history s1)" and "lruk_put k' v now s1 = Inr s2"
    and "key \<notin> fst ` set (lruk_history s2)"
  shows "(k' = key \<and> lruk_contains key s2) \<or>
         (k' \<noteq> key \<and> lruk_contains k' s2 \<and>
          findVictimKey (recordHistoryAccess k' now s1) = Inr key)"
proof (cases "map_of (lruk_cache s1) k'")
  case (Some r)
  with assms show ?thesis by (auto simp: lruk_put_def)
next
  case None
  let ?s1 = "recordHistoryAccess k' now s1"
  have in1: "key \<in> fst ` set (lruk_history ?s1)"
    using assms(1) by (simp add: recordHistoryAccess_keys)
  obtain h where h: "map_of (lruk_history ?s1) k' = Some h"
    using recordHistoryAccess_keys [of k' now s1]
    by (cases "map_of (lruk_history ?s1) k'") (auto simp: map_of_eq_None_iff)
  have put: "lruk_put k' v now s1 =
      (if length (h_access_times h) \<ge> size_t_of (lruk_k ?s1) then
         (if length (lruk_cache ?s1) \<ge> size_t_of (lruk_capacity ?s1) then
            (case findVictimKey ?s1 of
               Inl e \<Rightarrow> Inl e
             | Inr victim_key \<Rightarrow>
                 (case map_of (lruk_cache ?s1) victim_key of
                    Some _ \<Rightarrow>
                      promoteToCache k' v
                        (?s1\<lparr>lruk_cache := AList.delete victim_key (lruk_cache ?s1)\<rparr>)
                  | None \<Rightarrow>
                      promoteToCache k' v
                        (?s1\<lparr>lruk_history := AList.delete victim_key (lruk_history ?s1)\<rparr>)))
          else promoteToCache k' v ?s1)
       else Inr ?s1)"
    using None h unfolding lruk_put_def Let_def by simp
  show ?thesis
  proof (cases "length (h_access_times h) \<ge> size_t_of (lruk_k ?s1)")
    case False
    with put assms(2) have "s2 = ?s1" by simp
    with in1 assms(3) show ?thesis by simp
  next
    case promo: True
    show ?thesis
    proof (cases "length (lruk_cache ?s1) \<ge> size_t_of (lruk_capacity ?s1)")
      case False
      with put promo assms(2) have "promoteToCache k' v ?s1 = Inr s2" by simp
      from promoteToCache_effect [OF this] in1 assms(3) show ?thesis
        by (auto simp: lruk_contains_def)
    next
      case full: True
      show ?thesis
      proof (cases "findVictimKey ?s1")
        case (Inl e)
        with put promo full assms(2) show ?thesis by simp
      next
        case (Inr victim)
        show ?thesis
        proof (cases "map_of (lruk_cache ?s1) victim")
          case (Some r)
          with put promo full Inr assms(2) have
            "promoteToCache k' v (?s1\<lparr>lruk_cache := AList.delete victim (lruk_cache ?s1)\<rparr>)
               = Inr s2" by simp
          from promoteToCache_effect [OF this] in1 assms(3) show ?thesis
            by (auto simp: lruk_contains_def)
        next
          case None
          with put promo full Inr assms(2) have
            "promoteToCache k' v
               (?s1\<lparr>lruk_history := AList.delete victim (lruk_history ?s1)\<rparr>) = Inr s2"
            by simp
          from promoteToCache_effect [OF this] in1 assms(3) Inr show ?thesis
            by (auto simp: lruk_contains_def keys_delete)
        qed
      qed
    qed
  qed
qed

lemma history_record_removal:
  assumes "key \<in> fst ` set (lruk_history s1)"
    and "cp_apply (op, now) (LRU_K s1) = Inr (LRU_K s2)"
    and "key \<notin> fst ` set (lruk_history s2)"
  shows "op = Clear \<or> (\<exists>v. op = Put key v \<and> lruk_contains key s2) \<or>
         (\<exists>k' v. op = Put k' v \<and> k' \<noteq> key \<and> lruk_contains k' s2 \<and>
                  findVictimKey (recordHistoryAccess k' now s1) = Inr key)"
proof (cases op)
  case (Get k')
  with assms show ?thesis
    by (cases "lruk_get k' now s1") (use lruk_get_history [of k' now s1] in auto)
next
  case (Put k' v)
  with assms(2) have "lruk_put k' v now s1 = Inr s2"
    by (auto simp: map_sum_eq_Inr)
  from lruk_put_history_loss [OF assms(1) this assms(3)] Put show ?thesis by auto
next
  case (Contains k')
  with assms show ?thesis by auto
next
  case Clear
  then show ?thesis by simp
qed

lemma puts_stay_in_history:
  assumes "lruk_inv s" and "lruk_cache s = []" and "2 \<le> lruk_k s"
    and "distinct (map fst ps)" and "fst ` set ps \<inter> fst ` set (lruk_history s) = {}"
  shows "\<exists>s'. cp_run (map (\<lambda>(key, v, t). (Put key v, t)) ps) (LRU_K s) = Inr (LRU_K s') \<and>
           lruk_cache s' = [] \<and>
           map fst (lruk_history s') = map fst (lruk_history s) @ map fst ps"
  using assms
proof (induction ps arbitrary: s)
  case Nil
  then show ?case by simp
next
  case (Cons p ps)
  obtain key v t where p: "p = (key, v, t)" by (cases p)
  have notin: "key \<notin> fst ` set (lruk_history s)" using Cons.prems(5) p by auto
  then have none: "map_of (lruk_history s) key = None"
    by (simp add: map_of_eq_None_iff)
  then have cnt: "getHistoryAccessCount key s + 1 < lruk_k s"
    using Cons.prems(3) by (simp add: getHistoryAccessCount_def)
  have nc: "map_of (lruk_cache s) key = None" using Cons.prems(2) by simp
  let ?s1 = "recordHistoryAccess key t s"
  have put: "lruk_put key v t s = Inr ?s1"
    by (rule lruk_put_below [OF Cons.prems(1) nc cnt])
  have inv1: "lruk_inv ?s1"
    by (rule recordHistoryAccess_inv [OF Cons.prems(1) nc cnt])
  have hist1: "map fst (lruk_history ?s1) = map fst (lruk_history s) @ [key]"
    using notin none
    by (simp add: recordHistoryAccess_history [OF Cons.prems(1)] update_keys)
  have cache1: "lruk_cache ?s1 = []" using Cons.prems(2) by simp
  have k1: "2 \<le> lruk_k ?s1" using Cons.prems(3) by simp
  have d1: "distinct (map fst ps)" using Cons.prems(4) by simp
  have disj1: "fst ` set ps \<inter> fst ` set (lruk_history ?s1) = {}"
    using Cons.prems(4,5) p by (auto simp: recordHistoryAccess_keys)
  from Cons.IH [OF inv1 cache1 k1 d1 disj1] obtain s' where
    "cp_run (map (\<lambda>(key, v, t). (Put key v, t)) ps) (LRU_K ?s1) = Inr (LRU_K s')"
    "lruk_cache s' = []"
    "map fst (lruk_history s') = map fst (lruk_history ?s1) @ map fst ps" by blast
  with put hist1 p show ?case by simp
qed

lemma lruk_reachable_inv:
  assumes "lruk_new capacity k = Inr s0" and "cp_run ops (LRU_K s0) = Inr (LRU_K s)"
  shows "lruk_inv s"
  using cp_run_lruk_inv [OF lruk_new_inv [OF assms(1)], of ops] assms(2) by auto

lemma lruk_history_key_invisible:
  assumes "lruk_inv s" and "0 < getHistoryAccessCount key s"
  shows "\<not> lruk_contains key s \<and> lruk_get key now s = (Inl out_of_range, s)"
proof -
  from assms(2) have "key \<in> dom (map_of (lruk_history s))"
    by (auto simp: getHistoryAccessCount_def split: option.splits)
  with assms(1) have "map_of (lruk_cache s) key = None"
    unfolding lruk_inv_alt by auto
  then show ?thesis by (simp add: lruk_contains_def lruk_get_def)
qed

lemma lruk_put_below_invisible:
  assumes "lruk_inv s" and "\<not> lruk_contains key s"
    and "getHistoryAccessCount key s + 1 < lruk_k s"
  shows "\<exists>s'. lruk_put key val now s = Inr s' \<and>
           getHistoryAccessCount key s' = getHistoryAccessCount key s + 1 \<and>
           \<not> lruk_contains key s' \<and> lruk_get key now' s' = (Inl out_of_range, s')"
proof -
  have nc: "map_of (lruk_cache s) key = None" using assms(2) by (simp add: lruk_contains_def)
  let ?s1 = "recordHistoryAccess key now s"
  have "lruk_put key val now s = Inr ?s1" by (rule lruk_put_below [OF assms(1) nc assms(3)])
  moreover have "getHistoryAccessCount key ?s1 = getHistoryAccessCount key s + 1"
    using recordHistoryAccess_lookup [OF assms(1), of key now]
    by (auto simp: getHistoryAccessCount_def)
  moreover have "\<not> lruk_contains key ?s1 \<and> lruk_get key now' ?s1 = (Inl out_of_range, ?s1)"
    using nc by (simp add: lruk_contains_def lruk_get_def)
  ultimately show ?thesis by blast
qed

lemma lruk_put_promote_visible:
  assumes "lruk_inv s" and "\<not> lruk_contains key s"
    and "getHistoryAccessCount key s + 1 = lruk_k s"
  shows "\<exists>s'. lruk_put key val now s = Inr s' \<and>
           map_of (lruk_cache s') key =
             Some \<lparr>c_key = key, c_value = val,
                   c_access_times =
                     (case map_of (lruk_history s) key of
                        None \<Rightarrow> [] | Some h \<Rightarrow> h_access_times h) @ [now]\<rparr> \<and>
           map_of (lruk_history s') key = None \<and>
           lruk_contains key s' \<and> fst (lruk_get key now' s') = Inr val"
proof -
  have nc: "map_of (lruk_cache s) key = None" using assms(2) by (simp add: lruk_contains_def)
  from lruk_put_promote [OF assms(1) nc assms(3), of val now] obtain s' where
    "lruk_put key val now s = Inr s'"
    "map_of (lruk_cache s') key =
             Some \<lparr>c_key = key, c_value = val,
                   c_access_times =
                     (case map_of (lruk_history s) key of
                        None \<Rightarrow> [] | Some h \<Rightarrow> h_access_times h) @ [now]\<rparr>"
    "map_of (lruk_history s') key = None" by blast
  then show ?thesis
    by (intro exI [of _ s']) (simp add: lruk_contains_def lruk_get_def)
qed

text \<open>
  Claim C3.  In every state \<open>s\<close> that an LRU-K engine reaches from its construction:
  a key with a history record is not visible (\<open>contains\<close> is false, \<open>get\<close> throws
  \<open>out_of_range\<close> and changes nothing); a put on a key that is not promoted and stays
  below K recorded accesses succeeds, adds one access and leaves the key invisible; and the
  put that brings the history queue to exactly K entries promotes the key: the promoted
  table then holds for it the value of that put and the history queue with the time of
  that put appended, its history record is gone, \<open>contains\<close> is true and \<open>get\<close>
  returns that value.  The scenario with K = 2 is the witness below.
\<close>

theorem lruk_promotion_at_kth_access:
  assumes "lruk_new capacity k = Inr s0" and "cp_run ops (LRU_K s0) = Inr (LRU_K s)"
  shows "(0 < getHistoryAccessCount key s \<longrightarrow>
            \<not> lruk_contains key s \<and> lruk_get key now s = (Inl out_of_range, s)) \<and>
         (\<not> lruk_contains key s \<and> getHistoryAccessCount key s + 1 < lruk_k s \<longrightarrow>
            (\<exists>s'. lruk_put key val now s = Inr s' \<and>
               getHistoryAccessCount key s' = getHistoryAccessCount key s + 1 \<and>
               \<not> lruk_contains key s' \<and> lruk_get key now' s' = (Inl out_of_range, s'))) \<and>
         (\<not> lruk_contains key s \<and> getHistoryAccessCount key s + 1 = lruk_k s \<longrightarrow>
            (\<exists>s'. lruk_put key val now s = Inr s' \<and>
               map_of (lruk_cache s') key =
                 Some \<lparr>c_key = key, c_value = val,
                       c_access_times =
                         (case map_of (lruk_history s) key of
                            None \<Rightarrow> [] | Some h \<Rightarrow> h_access_times h) @ [now]\<rparr> \<and>
               map_of (lruk_history s') key = None \<and>
               lruk_contains key s' \<and> fst (lruk_get key now' s') = Inr val))"
proof -
  have inv: "lruk_inv s" by (rule lruk_reachable_inv [OF assms])
  show ?thesis
    using lruk_history_key_invisible [OF inv, of key now]
      lruk_put_below_invisible [OF inv, of key val now now']
      lruk_put_promote_visible [OF inv, of key val now now']
    by blast
qed

theorem lruk_promotion_at_kth_access_witness:
  "lruk_new 3 2 = Inr \<lparr>lruk_capacity = 3, lruk_k = 2, lruk_history = [], lruk_cache = []\<rparr> \<and>
   lruk_put (1::int) ''a'' 10 \<lparr>lruk_capacity = 3, lruk_k = 2, lruk_history = [], lruk_cache = []\<rparr> =
     Inr \<lparr>lruk_capacity = 3, lruk_k = 2,
          lruk_history = [(1, \<lparr>h_key = 1, h_access_times = [10]\<rparr>)], lruk_cache = []\<rparr> \<and>
   \<not> lruk_contains (1::int)
       \<lparr>lruk_capacity = 3, lruk_k = 2,
        lruk_history = [(1, \<lparr>h_key = 1, h_access_times = [10]\<rparr>)],
        lruk_cache = ([] :: (int \<times> (int, string) CacheRecord) list)\<rparr> \<and>
   fst (lruk_get (1::int) 15
       \<lparr>lruk_capacity = 3, lruk_k = 2,
        lruk_history = [(1, \<lparr>h_key = 1, h_access_times = [10]\<rparr>)],
        lruk_cache = ([] :: (int \<times> (int, string) CacheRecord) list)\<rparr>) = Inl out_of_range \<and>
   lruk_put (1::int) ''b'' 20
       \<lparr>lruk_capacity = 3, lruk_k = 2,
        lruk_history = [(1, \<lparr>h_key = 1, h_access_times = [10]\<rparr>)], lruk_cache = []\<rparr> =
     Inr \<lparr>lruk_capacity = 3, lruk_k = 2, lruk_history = [],
          lruk_cache = [(1, \<lparr>c_key = 1, c_value = ''b'', c_access_times = [10, 20]\<rparr>)]\<rparr> \<and>
   lruk_contains (1::int)
       \<lparr>lruk_capacity = 3, lruk_k = 2, lruk_history = [],
        lruk_cache = [(1, \<lparr>c_key = 1, c_value = ''b'', c_access_times = [10, 20]\<rparr>)]\<rparr> \<and>
   fst (lruk_get (1::int) 30
       \<lparr>lruk_capacity = 3, lruk_k = 2, lruk_history = [],
        lruk_cache = [(1, \<lparr>c_key = 1, c_value = ''b'', c_access_times = [10, 20]\<rparr>)]\<rparr>) = Inr ''b''"
proof -
  let ?init = "\<lparr>lruk_capacity = 3, lruk_k = 2, lruk_history = [],
                 lruk_cache = ([] :: (int \<times> (int, string) CacheRecord) list)\<rparr>"
  let ?once = "\<lparr>lruk_capacity = 3, lruk_k = 2,
                 lruk_history = [(1::int, \<lparr>h_key = 1, h_access_times = [10]\<rparr>)],
                 lruk_cache = ([] :: (int \<times> (int, string) CacheRecord) list)\<rparr>"
  have new: "lruk_new 3 2 = Inr ?init" by (simp add: lruk_new_def)
  have run0: "cp_run [] (LRU_K ?init) = Inr (LRU_K ?init)" by simp
  have run1: "cp_run [(Put 1 ''a'', 10)] (LRU_K ?init) = Inr (LRU_K ?once)"
    by (simp add: lruk_eval)
  have first: "\<not> lruk_contains 1 ?init \<and> getHistoryAccessCount 1 ?init + 1 < lruk_k ?init"
    by (simp add: lruk_contains_def getHistoryAccessCount_def)
  have second: "\<not> lruk_contains 1 ?once \<and> getHistoryAccessCount 1 ?once + 1 = lruk_k ?once"
    by (simp add: lruk_contains_def getHistoryAccessCount_def)
  from lruk_promotion_at_kth_access [OF new run0, of 1 10 "''a''" 15] first
  obtain s1 where s1: "lruk_put 1 ''a'' 10 ?init = Inr s1" "\<not> lruk_contains 1 s1"
    "lruk_get 1 15 s1 = (Inl out_of_range, s1)" by blast
  from lruk_promotion_at_kth_access [OF new run1, of 1 20 "''b''" 30] second
  obtain s2 where s2: "lruk_put 1 ''b'' 20 ?once = Inr s2" "lruk_contains 1 s2"
    "fst (lruk_get 1 30 s2) = Inr ''b''" by blast
  have "s1 = ?once" using s1(1) by (simp add: lruk_eval)
  moreover have "s2 = \<lparr>lruk_capacity = 3, lruk_k = 2, lruk_history = [],
          lruk_cache = [(1, \<lparr>c_key = 1, c_value = ''b'', c_access_times = [10, 20]\<rparr>)]\<rparr>"
    using s2(1) by (simp add: lruk_eval)
  ultimately show ?thesis using s1 s2 by (simp add: lruk_new_def)
qed

text \<open>
  Claim C10.  In an LRU-K engine with K of at least 2 the history table is not bounded by
  the capacity: one put on each of the distinct keys of \<open>ps\<close>, on a new engine, succeeds
  and leaves \<open>size()\<close> at 0, no key visible, and one history record for each key of
  \<open>ps\<close>, however long \<open>ps\<close> is.  And in any state, when an operation removes the history
  record of \<open>key\<close>, then the operation is \<open>clear\<close>, or it is a put on \<open>key\<close> that
  promotes it, or it is a put on another key that is promoted with \<open>key\<close> chosen by
  \<open>findVictimKey\<close> as the victim.
\<close>

theorem lruk_history_not_bounded_by_capacity:
  "(lruk_new capacity k = Inr s0 \<and> 2 \<le> k \<and> distinct (map fst ps) \<longrightarrow>
      (\<exists>s. cp_run (map (\<lambda>(key, v, t). (Put key v, t)) ps) (LRU_K s0) = Inr (LRU_K s) \<and>
           lruk_size s = 0 \<and> (\<forall>key. \<not> lruk_contains key s) \<and>
           map fst (lruk_history s) = map fst ps \<and>
           length (lruk_history s) = length ps)) \<and>
   (key \<in> fst ` set (lruk_history s1) \<and>
    cp_apply (op, now) (LRU_K s1) = Inr (LRU_K s2) \<and>
    key \<notin> fst ` set (lruk_history s2) \<longrightarrow>
      op = Clear \<or> (\<exists>v. op = Put key v \<and> lruk_contains key s2) \<or>
      (\<exists>k' v. op = Put k' v \<and> k' \<noteq> key \<and> lruk_contains k' s2 \<and>
               findVictimKey (recordHistoryAccess k' now s1) = Inr key))"
proof (intro conjI impI)
  assume a: "lruk_new capacity k = Inr s0 \<and> 2 \<le> k \<and> distinct (map fst ps)"
  then have s0: "lruk_cache s0 = []" "lruk_history s0 = []" "lruk_k s0 = k"
    by (auto simp: lruk_new_def split: if_splits)
  have inv: "lruk_inv s0" using a by (auto intro: lruk_new_inv)
  from puts_stay_in_history [OF inv s0(1), of ps] a s0 obtain s where
    s: "cp_run (map (\<lambda>(key, v, t). (Put key v, t)) ps) (LRU_K s0) = Inr (LRU_K s)"
      "lruk_cache s = []" "map fst (lruk_history s) = map fst ps"
    by auto
  from s(3) have "length (lruk_history s) = length ps"
    by (metis length_map)
  with s show "\<exists>s. cp_run (map (\<lambda>(key, v, t). (Put key v, t)) ps) (LRU_K s0) = Inr (LRU_K s) \<and>
           lruk_size s = 0 \<and> (\<forall>key. \<not> lruk_contains key s) \<and>
           map fst (lruk_history s) = map fst ps \<and>
           length (lruk_history s) = length ps"
    by (intro exI [of _ s]) (simp add: lruk_size_def lruk_contains_def)
next
  assume "key \<in> fst ` set (lruk_history s1) \<and>
    cp_apply (op, now) (LRU_K s1) = Inr (LRU_K s2) \<and>
    key \<notin> fst ` set (lruk_history s2)"
  then show "op = Clear \<or> (\<exists>v. op = Put key v \<and> lruk_contains key s2) \<or>
      (\<exists>k' v. op = Put k' v \<and> k' \<noteq> key \<and> lruk_contains k' s2 \<and>
               findVictimKey (recordHistoryAccess k' now s1) = Inr key)"
    using history_record_removal [of key s1 op now s2] by blast
qed

theorem lruk_history_not_bounded_by_capacity_witness:
  "lruk_new 1 2 = Inr \<lparr>lruk_capacity = 1, lruk_k = 2, lruk_history = [], lruk_cache = []\<rparr> \<and>
   cp_run [(Put (1::int) ''a'', 1), (Put 2 ''b'', 2), (Put 3 ''c'', 3)]
     (LRU_K \<lparr>lruk_capacity = 1, lruk_k = 2, lruk_history = [], lruk_cache = []\<rparr>) =
   Inr (LRU_K \<lparr>lruk_capacity = 1, lruk_k = 2,
          lruk_history = [(1, \<lparr>h_key = 1, h_access_times = [1]\<rparr>),
                          (2, \<lparr>h_key = 2, h_access_times = [2]\<rparr>),
                          (3, \<lparr>h_key = 3, h_access_times = [3]\<rparr>)],
          lruk_cache = []\<rparr>) \<and>
   cp_apply (Put (3::int) ''e'', 5)
     (LRU_K \<lparr>lruk_capacity = 1, lruk_k = 2,
          lruk_history = [(2, \<lparr>h_key = 2, h_access_times = [3]\<rparr>),
                          (3, \<lparr>h_key = 3, h_access_times = [4]\<rparr>)],
          lruk_cache = [(1, \<lparr>c_key = 1, c_value = ''b'', c_access_times = [1, 2]\<rparr>)]\<rparr>) =
   Inr (LRU_K \<lparr>lruk_capacity = 1, lruk_k = 2, lruk_history = [],
          lruk_cache = [(1, \<lparr>c_key = 1, c_value = ''b'', c_access_times = [1, 2]\<rparr>),
                        (3, \<lparr>c_key = 3, c_value = ''e'', c_access_times = [4, 5]\<rparr>)]\<rparr>) \<and>
   findVictimKey (recordHistoryAccess (3::int) 5
       \<lparr>lruk_capacity = 1, lruk_k = 2,
          lruk_history = [(2, \<lparr>h_key = 2, h_access_times = [3]\<rparr>),
                          (3, \<lparr>h_key = 3, h_access_times = [4]\<rparr>)],
          lruk_cache = [(1, \<lparr>c_key = 1, c_value = ''b'', c_access_times = [1, 2]\<rparr>)]\<rparr>) = Inr 2"
proof -
  let ?init = "\<lparr>lruk_capacity = 1, lruk_k = 2, lruk_history = [],
              lruk_cache = ([] :: (int \<times> (int, string) CacheRecord) list)\<rparr>"
  let ?ps = "[(1::int, ''a'', 1), (2, ''b'', 2), (3, ''c'', 3)] :: (int \<times> string \<times> TimeStamp) list"
  let ?before = "\<lparr>lruk_capacity = 1, lruk_k = 2,
          lruk_history = [(2::int, \<lparr>h_key = 2, h_access_times = [3]\<rparr>),
                          (3, \<lparr>h_key = 3, h_access_times = [4]\<rparr>)],
          lruk_cache = [(1, \<lparr>c_key = 1, c_value = ''b'', c_access_times = [1, 2]\<rparr>)]\<rparr>"
  let ?after = "\<lparr>lruk_capacity = 1, lruk_k = 2, lruk_history = [],
          lruk_cache = [(1::int, \<lparr>c_key = 1, c_value = ''b'', c_access_times = [1, 2]\<rparr>),
                        (3, \<lparr>c_key = 3, c_value = ''e'', c_access_times = [4, 5]\<rparr>)]\<rparr>"
  note T = lruk_history_not_bounded_by_capacity
             [of 1 2 ?init ?ps 2 ?before "Put 3 ''e''" 5 ?after]
  have puts: "lruk_new 1 2 = Inr ?init \<and> (2::int) \<le> 2 \<and> distinct (map fst ?ps)"
    by (simp add: lruk_new_def)
  have step: "cp_apply (Put 3 ''e'', 5) (LRU_K ?before) = Inr (LRU_K ?after)"
    by (simp add: lruk_eval)
  have lost: "2 \<in> fst ` set (lruk_history ?before) \<and>
              cp_apply (Put 3 ''e'', 5) (LRU_K ?before) = Inr (LRU_K ?after) \<and>
              2 \<notin> fst ` set (lruk_history ?after)"
    using step by simp
  from T puts obtain s where
    s: "cp_run (map (\<lambda>(key, v, t). (Put key v, t)) ?ps) (LRU_K ?init) = Inr (LRU_K s)"
       "lruk_size s = 0" "length (lruk_history s) = length ?ps" by blast
  from T lost have "findVictimKey (recordHistoryAccess 3 5 ?before) = Inr 2" by auto
  moreover have "cp_run [(Put (1::int) ''a'', 1), (Put 2 ''b'', 2), (Put 3 ''c'', 3)]
     (LRU_K ?init) =
   Inr (LRU_K \<lparr>lruk_capacity = 1, lruk_k = 2,
          lruk_history = [(1, \<lparr>h_key = 1, h_access_times = [1]\<rparr>),
                          (2, \<lparr>h_key = 2, h_access_times = [2]\<rparr>),
                          (3, \<lparr>h_key = 3, h_access_times = [3]\<rparr>)],
          lruk_cache = []\<rparr>)"
    by (simp add: lruk_eval)
  ultimately show ?thesis using step by (simp add: lruk_new_def)
qed

subsection \<open>LRU: the invariant and the recency order\<close>

lemma set_butlast_distinct:
  "distinct xs \<Longrightarrow> xs \<noteq> [] \<Longrightarrow> set (butlast xs) = set xs - {last xs}"
proof -
  assume d: "distinct xs" and ne: "xs \<noteq> []"
  then have xs: "xs = butlast xs @ [last xs]" by simp
  with d have "last xs \<notin> set (butlast xs)"
    by (metis distinct_append distinct.simps(2) disjoint_iff list.set_intros(1))
  moreover have "set xs = set (butlast xs) \<union> {last xs}"
    using xs by (metis set_append list.set(1,2) Un_insert_right sup_bot.right_neutral)
  ultimately show ?thesis by auto
qed

lemma filter_remove1_other:
  "filter (\<lambda>x. x \<noteq> key) (remove1 key xs) = filter (\<lambda>x. x \<noteq> key) xs"
  by (induction xs) auto

lemma length_remove1_mem: "x \<in> set xs \<Longrightarrow> int (length (x # remove1 x xs)) = int (length xs)"
  by (simp add: length_remove1) (cases xs; simp)

lemma lru_new_inv: "lru_new capacity = Inr s \<Longrightarrow> lru_inv s"
  by (auto simp: lru_new_def lru_inv_def split: if_splits)

lemma lru_clear_inv: "lru_inv s \<Longrightarrow> lru_inv (lru_clear s)"
  by (simp add: lru_inv_def lru_clear_def)

lemma lru_moveToHead_props:
  assumes "distinct xs" and "key \<in> set xs"
  shows "distinct (lru_moveToHead key xs)" and "set (lru_moveToHead key xs) = set xs"
    and "int (length (lru_moveToHead key xs)) = int (length xs)"
    and "hd (lru_moveToHead key xs) = key"
    and "filter (\<lambda>x. x \<noteq> key) (lru_moveToHead key xs) = filter (\<lambda>x. x \<noteq> key) xs"
proof -
  show "distinct (lru_moveToHead key xs)"
    using assms by (simp add: lru_moveToHead_def lru_addToHead_def lru_removeNode_def)
  show "set (lru_moveToHead key xs) = set xs"
    using assms by (auto simp: lru_moveToHead_def lru_addToHead_def lru_removeNode_def)
  show "int (length (lru_moveToHead key xs)) = int (length xs)"
    using assms(2) length_remove1_mem [of key xs]
    by (simp add: lru_moveToHead_def lru_addToHead_def lru_removeNode_def)
  show "hd (lru_moveToHead key xs) = key"
    by (simp add: lru_moveToHead_def lru_addToHead_def)
  show "filter (\<lambda>x. x \<noteq> key) (lru_moveToHead key xs) = filter (\<lambda>x. x \<noteq> key) xs"
    by (simp add: lru_moveToHead_def lru_addToHead_def lru_removeNode_def filter_remove1_other)
qed

lemma lru_get_inv:
  assumes "lru_inv s"
  shows "lru_inv (snd (lru_get key s))"
proof (cases "lru_cache s key")
  case None
  with assms show ?thesis by (simp add: lru_get_def)
next
  case (Some v)
  then have "key \<in> set (lru_list s)" using assms by (auto simp: lru_inv_def)
  with assms Some lru_moveToHead_props(1-3) [of "lru_list s" key] show ?thesis
    by (simp add: lru_get_def lru_inv_def)
qed

lemma lru_put_existing:
  assumes "lru_cache s key = Some v"
  shows "lru_put key val s =
         Inr (s\<lparr>lru_cache := (lru_cache s)(key \<mapsto> val),
                lru_list := lru_moveToHead key (lru_list s)\<rparr>)"
  using assms by (simp add: lru_put_def)

lemma lru_put_new_full:
  assumes "lru_inv s" and "lru_cache s key = None" and "lru_size s \<ge> lru_capacity s"
  shows "lru_list s \<noteq> [] \<and>
         lru_put key val s =
         Inr (s\<lparr>lru_cache := ((lru_cache s)(last (lru_list s) := None))(key \<mapsto> val),
                lru_size := lru_size s - 1 + 1,
                lru_list := key # butlast (lru_list s)\<rparr>)"
proof -
  from assms(1,3) have "lru_list s \<noteq> []" by (auto simp: lru_inv_def)
  with assms(2,3) show ?thesis
    by (simp add: lru_put_def lru_removeTail_def lru_addToHead_def)
qed

lemma lru_put_new_room:
  assumes "lru_cache s key = None" and "\<not> lru_size s \<ge> lru_capacity s"
  shows "lru_put key val s =
         Inr (s\<lparr>lru_cache := (lru_cache s)(key \<mapsto> val),
                lru_size := lru_size s + 1,
                lru_list := key # lru_list s\<rparr>)"
  using assms by (simp add: lru_put_def lru_addToHead_def)

lemma lru_put_inv:
  assumes "lru_inv s"
  shows "\<exists>s'. lru_put key val s = Inr s' \<and> lru_inv s'"
proof (cases "lru_cache s key")
  case (Some v)
  then have "key \<in> set (lru_list s)" using assms by (auto simp: lru_inv_def)
  with assms Some lru_moveToHead_props(1-3) [of "lru_list s" key] show ?thesis
    by (auto simp: lru_put_existing lru_inv_def)
next
  case None
  then have notin: "key \<notin> set (lru_list s)" using assms by (auto simp: lru_inv_def)
  show ?thesis
  proof (cases "lru_size s \<ge> lru_capacity s")
    case True
    from lru_put_new_full [OF assms None True, of val] have ne: "lru_list s \<noteq> []"
      and put: "lru_put key val s =
         Inr (s\<lparr>lru_cache := ((lru_cache s)(last (lru_list s) := None))(key \<mapsto> val),
                lru_size := lru_size s - 1 + 1,
                lru_list := key # butlast (lru_list s)\<rparr>)" by auto
    have d: "distinct (lru_list s)" using assms by (simp add: lru_inv_def)
    have sb: "set (butlast (lru_list s)) = set (lru_list s) - {last (lru_list s)}"
      by (rule set_butlast_distinct [OF d ne])
    have "key \<notin> set (butlast (lru_list s))" using notin sb by auto
    moreover have "distinct (butlast (lru_list s))" using d by (rule distinct_butlast)
    moreover have "int (length (butlast (lru_list s))) + 1 = int (length (lru_list s))"
      using ne by (cases "lru_list s") auto
    ultimately show ?thesis
      using assms sb unfolding put lru_inv_def by auto
  next
    case False
    with assms None notin show ?thesis
      unfolding lru_put_new_room [OF None False] lru_inv_def by auto
  qed
qed

lemma cp_apply_lru_inv:
  assumes "lru_inv s"
  shows "\<exists>s'. cp_apply x (LRU s) = Inr (LRU s') \<and> lru_inv s'"
proof -
  obtain op now where x: "x = (op, now)" by (cases x)
  show ?thesis
  proof (cases op)
    case (Get key)
    with x show ?thesis
      using lru_get_inv [OF assms, of key] by (cases "lru_get key s") auto
  next
    case (Put key val)
    with x lru_put_inv [OF assms, of key val] show ?thesis by auto
  next
    case (Contains key)
    with x assms show ?thesis by simp
  next
    case Clear
    with x lru_clear_inv [OF assms] show ?thesis by simp
  qed
qed

lemma cp_run_lru_inv:
  "lru_inv s \<Longrightarrow> \<exists>s'. cp_run ops (LRU s) = Inr (LRU s') \<and> lru_inv s'"
proof (induction ops arbitrary: s)
  case Nil
  then show ?case by simp
next
  case (Cons x ops)
  from cp_apply_lru_inv [OF Cons.prems, of x] obtain s1 where
    "cp_apply x (LRU s) = Inr (LRU s1)" "lru_inv s1" by blast
  with Cons.IH [of s1] show ?case by simp
qed

lemma lru_reachable_inv:
  assumes "lru_new capacity = Inr s0" and "cp_run ops (LRU s0) = Inr (LRU s)"
  shows "lru_inv s"
  using cp_run_lru_inv [OF lru_new_inv [OF assms(1)], of ops] assms(2) by auto

text \<open>
  Claim C6.  In every state \<open>s\<close> that an LRU engine reaches from its construction:
  \<open>get\<close> and \<open>put\<close> on a key that is present move its node to the head of the recency
  list and leave the other nodes in their order (\<open>put\<close> also replaces the value); a
  \<open>put\<close> of a new key when \<open>size()\<close> equals \<open>capacity()\<close> removes the tail node, the
  least recently used key, from the list and from the index, and inserts the new node at
  the head; below capacity the new node is inserted at the head and nothing is removed.
  The scenario with capacity 3 is the witness below.
\<close>

theorem lru_recency_order:
  assumes "lru_new capacity = Inr s0" and "cp_run ops (LRU s0) = Inr (LRU s)"
  shows "(lru_cache s key = Some v \<longrightarrow>
            (\<exists>s'. lru_get key s = (Inr v, s') \<and> lru_cache s' = lru_cache s \<and>
                  hd (lru_list s') = key \<and> distinct (lru_list s') \<and>
                  filter (\<lambda>x. x \<noteq> key) (lru_list s') = filter (\<lambda>x. x \<noteq> key) (lru_list s)) \<and>
            (\<exists>s'. lru_put key val s = Inr s' \<and> lru_cache s' = (lru_cache s)(key \<mapsto> val) \<and>
                  hd (lru_list s') = key \<and> distinct (lru_list s') \<and>
                  filter (\<lambda>x. x \<noteq> key) (lru_list s') = filter (\<lambda>x. x \<noteq> key) (lru_list s))) \<and>
         (lru_cache s key = None \<and> lru_size s = lru_capacity s \<longrightarrow>
            lru_list s \<noteq> [] \<and>
            (\<exists>s'. lru_put key val s = Inr s' \<and>
                  lru_list s' = key # butlast (lru_list s) \<and>
                  lru_cache s' = ((lru_cache s)(last (lru_list s) := None))(key \<mapsto> val) \<and>
                  \<not> lru_contains (last (lru_list s)) s' \<and> lru_size s' = lru_capacity s')) \<and>
         (lru_cache s key = None \<and> lru_size s < lru_capacity s \<longrightarrow>
            (\<exists>s'. lru_put key val s = Inr s' \<and> lru_list s' = key # lru_list s \<and>
                  lru_cache s' = (lru_cache s)(key \<mapsto> val)))"
proof (intro conjI impI)
  have inv: "lru_inv s" by (rule lru_reachable_inv [OF assms])
  {
    assume c: "lru_cache s key = Some v"
    then have mem: "key \<in> set (lru_list s)" using inv by (auto simp: lru_inv_def)
    have d: "distinct (lru_list s)" using inv by (simp add: lru_inv_def)
    note mv = lru_moveToHead_props [OF d mem]
    show "\<exists>s'. lru_get key s = (Inr v, s') \<and> lru_cache s' = lru_cache s \<and>
                  hd (lru_list s') = key \<and> distinct (lru_list s') \<and>
                  filter (\<lambda>x. x \<noteq> key) (lru_list s') = filter (\<lambda>x. x \<noteq> key) (lru_list s)"
      using c mv by (simp add: lru_get_def)
    show "\<exists>s'. lru_put key val s = Inr s' \<and> lru_cache s' = (lru_cache s)(key \<mapsto> val) \<and>
                  hd (lru_list s') = key \<and> distinct (lru_list s') \<and>
                  filter (\<lambda>x. x \<noteq> key) (lru_list s') = filter (\<lambda>x. x \<noteq> key) (lru_list s)"
      using c mv by (simp add: lru_put_existing)
  }
  {
    assume a: "lru_cache s key = None \<and> lru_size s = lru_capacity s"
    then have full: "lru_size s \<ge> lru_capacity s" and none: "lru_cache s key = None" by auto
    note p = lru_put_new_full [OF inv none full, of val]
    from p show "lru_list s \<noteq> []" by simp
    then have "last (lru_list s) \<in> dom (lru_cache s)"
      using inv by (auto simp: lru_inv_def dest: last_in_set)
    with none have "last (lru_list s) \<noteq> key" by auto
    with p a show "\<exists>s'. lru_put key val s = Inr s' \<and>
                  lru_list s' = key # butlast (lru_list s) \<and>
                  lru_cache s' = ((lru_cache s)(last (lru_list s) := None))(key \<mapsto> val) \<and>
                  \<not> lru_contains (last (lru_list s)) s' \<and> lru_size s' = lru_capacity s'"
      by (simp add: lru_contains_def)
  }
  {
    assume a: "lru_cache s key = None \<and> lru_size s < lru_capacity s"
    then have "\<not> lru_size s \<ge> lru_capacity s" and none: "lru_cache s key = None" by auto
    from lru_put_new_room [OF none this(1), of val]
    show "\<exists>s'. lru_put key val s = Inr s' \<and> lru_list s' = key # lru_list s \<and>
                  lru_cache s' = (lru_cache s)(key \<mapsto> val)"
      by simp
  }
qed

theorem lru_recency_order_witness:
  "lru_new 3 =
     Inr \<lparr>lru_capacity = 3, lru_size = 0, lru_cache = Map.empty, lru_list = []\<rparr> \<and>
   cp_run [(Put (1::int) ''a'', 0), (Put 2 ''b'', 0), (Put 3 ''c'', 0), (Get 1, 0)]
     (LRU \<lparr>lru_capacity = 3, lru_size = 0, lru_cache = Map.empty, lru_list = []\<rparr>) =
     Inr (LRU \<lparr>lru_capacity = 3, lru_size = 3,
               lru_cache = [1 \<mapsto> ''a'', 2 \<mapsto> ''b'', 3 \<mapsto> ''c''], lru_list = [1, 3, 2]\<rparr>) \<and>
   lru_put 4 ''d''
       \<lparr>lru_capacity = 3, lru_size = 3,
        lru_cache = [1::int \<mapsto> ''a'', 2 \<mapsto> ''b'', 3 \<mapsto> ''c''], lru_list = [1, 3, 2]\<rparr> =
     Inr \<lparr>lru_capacity = 3, lru_size = 3,
          lru_cache = ([1 \<mapsto> ''a'', 2 \<mapsto> ''b'', 3 \<mapsto> ''c''](2 := None))(4 \<mapsto> ''d''),
          lru_list = [4, 1, 3]\<rparr> \<and>
   \<not> lru_contains 2
       \<lparr>lru_capacity = 3, lru_size = 3,
        lru_cache = ([1::int \<mapsto> ''a'', 2 \<mapsto> ''b'', 3 \<mapsto> ''c''](2 := None))(4 \<mapsto> ''d''),
        lru_list = [4, 1, 3]\<rparr> \<and>
   lru_contains 1
       \<lparr>lru_capacity = 3, lru_size = 3,
        lru_cache = ([1::int \<mapsto> ''a'', 2 \<mapsto> ''b'', 3 \<mapsto> ''c''](2 := None))(4 \<mapsto> ''d''),
        lru_list = [4, 1, 3]\<rparr> \<and>
   lru_contains 3
       \<lparr>lru_capacity = 3, lru_size = 3,
        lru_cache = ([1::int \<mapsto> ''a'', 2 \<mapsto> ''b'', 3 \<mapsto> ''c''](2 := None))(4 \<mapsto> ''d''),
        lru_list = [4, 1, 3]\<rparr> \<and>
   lru_contains 4
       \<lparr>lru_capacity = 3, lru_size = 3,
        lru_cache = ([1::int \<mapsto> ''a'', 2 \<mapsto> ''b'', 3 \<mapsto> ''c''](2 := None))(4 \<mapsto> ''d''),
        lru_list = [4, 1, 3]\<rparr>"
proof -
  let ?init = "\<lparr>lru_capacity = 3, lru_size = 0, lru_cache = Map.empty, lru_list = []\<rparr>
                :: (int, string) LruCache"
  let ?st = "\<lparr>lru_capacity = 3, lru_size = 3,
          lru_cache = [1::int \<mapsto> ''a'', 2 \<mapsto> ''b'', 3 \<mapsto> ''c''], lru_list = [1, 3, 2]\<rparr>"
  have new: "lru_new 3 = Inr ?init" by (simp add: lru_new_def)
  have run: "cp_run [(Put 1 ''a'', 0), (Put 2 ''b'', 0), (Put 3 ''c'', 0), (Get 1, 0)]
               (LRU ?init) = Inr (LRU ?st)"
    by (simp add: lru_eval)
  have full: "lru_cache ?st 4 = None \<and> lru_size ?st = lru_capacity ?st" by simp
  from lru_recency_order [OF new run, of 4 _ "''d''"] full
  obtain s' where s': "lru_put 4 ''d'' ?st = Inr s'"
    "lru_list s' = 4 # butlast (lru_list ?st)"
    "lru_cache s' = ((lru_cache ?st)(last (lru_list ?st) := None))(4 \<mapsto> ''d'')"
    "\<not> lru_contains (last (lru_list ?st)) s'" by blast
  have "s' = \<lparr>lru_capacity = 3, lru_size = 3,
          lru_cache = ([1 \<mapsto> ''a'', 2 \<mapsto> ''b'', 3 \<mapsto> ''c''](2 := None))(4 \<mapsto> ''d''),
          lru_list = [4, 1, 3]\<rparr>"
    using s'(1) by (simp add: lru_eval)
  with s' run show ?thesis by (simp add: lru_new_def lru_contains_def)
qed

subsection \<open>FIFO: the invariant and the insertion order\<close>

lemma fifo_new_inv: "fifo_new capacity = Inr s \<Longrightarrow> fifo_inv s"
  by (auto simp: fifo_new_def fifo_inv_def split: if_splits)

lemma fifo_clear_inv: "fifo_inv s \<Longrightarrow> fifo_inv (fifo_clear s)"
  by (simp add: fifo_inv_def fifo_clear_def)

lemma fifo_get_state: "snd (fifo_get key s) = s"
  by (simp add: fifo_get_def split: option.splits)

lemma fifo_put_existing:
  "fifo_cache s key = Some v \<Longrightarrow>
   fifo_put key val s = s\<lparr>fifo_cache := (fifo_cache s)(key \<mapsto> val)\<rparr>"
  by (simp add: fifo_put_def)

lemma fifo_put_new_full:
  assumes "fifo_inv s" and "fifo_cache s key = None" and "fifo_size s \<ge> fifo_capacity s"
  shows "fifo_queue s \<noteq> [] \<and>
         fifo_put key val s =
           s\<lparr>fifo_cache := ((fifo_cache s)(hd (fifo_queue s) := None))(key \<mapsto> val),
             fifo_size := fifo_size s - 1 + 1,
             fifo_queue := tl (fifo_queue s) @ [key]\<rparr>"
proof -
  from assms(1,3) have ne: "fifo_queue s \<noteq> []" by (auto simp: fifo_inv_def)
  then obtain h q where "fifo_queue s = h # q" by (cases "fifo_queue s") auto
  with assms(2,3) show ?thesis
    by (simp add: fifo_put_def fifo_removeHead_def fifo_addToTail_def Let_def)
qed

lemma fifo_put_new_room:
  assumes "fifo_cache s key = None" and "\<not> fifo_size s \<ge> fifo_capacity s"
  shows "fifo_put key val s =
           s\<lparr>fifo_cache := (fifo_cache s)(key \<mapsto> val),
             fifo_size := fifo_size s + 1,
             fifo_queue := fifo_queue s @ [key]\<rparr>"
  using assms by (simp add: fifo_put_def fifo_addToTail_def Let_def)

lemma fifo_put_inv:
  assumes "fifo_inv s"
  shows "fifo_inv (fifo_put key val s)"
proof (cases "fifo_cache s key")
  case (Some v)
  with assms show ?thesis
    by (auto simp: fifo_put_existing fifo_inv_def)
next
  case None
  then have notin: "key \<notin> set (fifo_queue s)" using assms by (auto simp: fifo_inv_def)
  show ?thesis
  proof (cases "fifo_size s \<ge> fifo_capacity s")
    case True
    from fifo_put_new_full [OF assms None True, of val] have ne: "fifo_queue s \<noteq> []"
      and put: "fifo_put key val s =
           s\<lparr>fifo_cache := ((fifo_cache s)(hd (fifo_queue s) := None))(key \<mapsto> val),
             fifo_size := fifo_size s - 1 + 1,
             fifo_queue := tl (fifo_queue s) @ [key]\<rparr>" by auto
    from ne obtain h q where hq: "fifo_queue s = h # q" by (cases "fifo_queue s") auto
    with assms notin show ?thesis
      unfolding put fifo_inv_def by auto
  next
    case False
    with assms None notin show ?thesis
      unfolding fifo_put_new_room [OF None False] fifo_inv_def by auto
  qed
qed

lemma cp_apply_fifo_inv:
  assumes "fifo_inv s"
  shows "\<exists>s'. cp_apply x (FIFO s) = Inr (FIFO s') \<and> fifo_inv s'"
proof -
  obtain op now where x: "x = (op, now)" by (cases x)
  show ?thesis
  proof (cases op)
    case (Get key)
    with x assms show ?thesis
      using fifo_get_state [of key s] by (cases "fifo_get key s") auto
  next
    case (Put key val)
    with x fifo_put_inv [OF assms, of key val] show ?thesis by auto
  next
    case (Contains key)
    with x assms show ?thesis by simp
  next
    case Clear
    with x fifo_clear_inv [OF assms] show ?thesis by simp
  qed
qed

lemma cp_run_fifo_inv:
  "fifo_inv s \<Longrightarrow> \<exists>s'. cp_run ops (FIFO s) = Inr (FIFO s') \<and> fifo_inv s'"
proof (induction ops arbitrary: s)
  case Nil
  then show ?case by simp
next
  case (Cons x ops)
  from cp_apply_fifo_inv [OF Cons.prems, of x] obtain s1 where
    "cp_apply x (FIFO s) = Inr (FIFO s1)" "fifo_inv s1" by blast
  with Cons.IH [of s1] show ?case by simp
qed

lemma fifo_reachable_inv:
  assumes "fifo_new capacity = Inr s0" and "cp_run ops (FIFO s0) = Inr (FIFO s)"
  shows "fifo_inv s"
  using cp_run_fifo_inv [OF fifo_new_inv [OF assms(1)], of ops] assms(2) by auto

lemma cp_run_fifo_gets:
  "cp_run (replicate n (Get key, now)) (FIFO s) = Inr (FIFO s)"
proof (induction n)
  case 0
  then show ?case by simp
next
  case (Suc n)
  then show ?case
    using fifo_get_state [of key s] by (cases "fifo_get key s") simp
qed

lemma cp_run_append:
  "cp_run xs e = Inr e' \<Longrightarrow> cp_run (xs @ ys) e = cp_run ys e'"
  by (induction xs arbitrary: e) (auto split: sum.splits)

text \<open>
  Claim C7.  In every state \<open>s\<close> that a FIFO engine reaches from its construction:
  \<open>get\<close> and \<open>contains\<close> leave the whole engine, and so the queue, unchanged; \<open>put\<close>
  on a key that is present only replaces its value; a \<open>put\<close> of a new key at capacity
  removes the head of the queue, the key inserted first, and appends the new key at the
  tail; below capacity it only appends.  And with capacity 3: after puts of three distinct
  keys, any number \<open>n\<close> of gets of the first key and a put of a fourth key, the first key
  is gone and the other three are present.
\<close>

theorem fifo_insertion_order:
  assumes "fifo_new capacity = Inr s0" and "cp_run ops (FIFO s0) = Inr (FIFO s)"
  shows "snd (fifo_get key s) = s \<and>
         cp_apply (Contains key, now) (FIFO s) = Inr (FIFO s) \<and>
         (fifo_cache s key \<noteq> None \<longrightarrow>
            fifo_put key val s = s\<lparr>fifo_cache := (fifo_cache s)(key \<mapsto> val)\<rparr>) \<and>
         (fifo_cache s key = None \<and> fifo_size s = fifo_capacity s \<longrightarrow>
            fifo_queue s \<noteq> [] \<and>
            fifo_queue (fifo_put key val s) = tl (fifo_queue s) @ [key] \<and>
            fifo_cache (fifo_put key val s) =
              ((fifo_cache s)(hd (fifo_queue s) := None))(key \<mapsto> val) \<and>
            \<not> fifo_contains (hd (fifo_queue s)) (fifo_put key val s)) \<and>
         (fifo_cache s key = None \<and> fifo_size s < fifo_capacity s \<longrightarrow>
            fifo_queue (fifo_put key val s) = fifo_queue s @ [key] \<and>
            fifo_cache (fifo_put key val s) = (fifo_cache s)(key \<mapsto> val)) \<and>
         (fifo_new 3 = Inr s3 \<longrightarrow>
            (\<exists>s'. cp_run ([(Put k1 v1, t1), (Put k2 v2, t2), (Put k3 v3, t3)] @
                          replicate n (Get k1, t4) @ [(Put k4 v4, t5)]) (FIFO s3) = Inr (FIFO s') \<and>
                  (distinct [k1, k2, k3, k4] \<longrightarrow>
                     \<not> fifo_contains k1 s' \<and> fifo_contains k2 s' \<and> fifo_contains k3 s' \<and>
                     fifo_contains k4 s')))"
proof (intro conjI impI)
  have inv: "fifo_inv s" by (rule fifo_reachable_inv [OF assms])
  show "snd (fifo_get key s) = s" by (rule fifo_get_state)
  show "cp_apply (Contains key, now) (FIFO s) = Inr (FIFO s)" by simp
  {
    assume "fifo_cache s key \<noteq> None"
    then show "fifo_put key val s = s\<lparr>fifo_cache := (fifo_cache s)(key \<mapsto> val)\<rparr>"
      by (auto simp: fifo_put_existing)
  }
  {
    assume a: "fifo_cache s key = None \<and> fifo_size s = fifo_capacity s"
    then have full: "fifo_size s \<ge> fifo_capacity s" and none: "fifo_cache s key = None" by auto
    note p = fifo_put_new_full [OF inv none full, of val]
    from p show ne: "fifo_queue s \<noteq> []" by simp
    from p show "fifo_queue (fifo_put key val s) = tl (fifo_queue s) @ [key]" by simp
    from p show "fifo_cache (fifo_put key val s) =
              ((fifo_cache s)(hd (fifo_queue s) := None))(key \<mapsto> val)" by simp
    from ne have "hd (fifo_queue s) \<in> dom (fifo_cache s)"
      using inv by (auto simp: fifo_inv_def dest: hd_in_set)
    with none have "hd (fifo_queue s) \<noteq> key" by auto
    with p show "\<not> fifo_contains (hd (fifo_queue s)) (fifo_put key val s)"
      by (simp add: fifo_contains_def)
  }
  {
    assume a: "fifo_cache s key = None \<and> fifo_size s < fifo_capacity s"
    then have "\<not> fifo_size s \<ge> fifo_capacity s" and none: "fifo_cache s key = None" by auto
    note p = fifo_put_new_room [OF none this(1), of val]
    from p show "fifo_queue (fifo_put key val s) = fifo_queue s @ [key]" by simp
    from p show "fifo_cache (fifo_put key val s) = (fifo_cache s)(key \<mapsto> val)" by simp
  }
  {
    assume n3: "fifo_new 3 = Inr s3"
    let ?e3 = "FIFO (fifo_put k3 v3 (fifo_put k2 v2 (fifo_put k1 v1 s3)))"
    have r1: "cp_run [(Put k1 v1, t1), (Put k2 v2, t2), (Put k3 v3, t3)] (FIFO s3) = Inr ?e3"
      by simp
    have r2: "cp_run ([(Put k1 v1, t1), (Put k2 v2, t2), (Put k3 v3, t3)] @
                          replicate n (Get k1, t4)) (FIFO s3) = Inr ?e3"
      using cp_run_append [OF r1] cp_run_fifo_gets by metis
    have r3: "cp_run ([(Put k1 v1, t1), (Put k2 v2, t2), (Put k3 v3, t3)] @
                          replicate n (Get k1, t4) @ [(Put k4 v4, t5)]) (FIFO s3)
              = Inr (FIFO (fifo_put k4 v4 (fifo_put k3 v3 (fifo_put k2 v2 (fifo_put k1 v1 s3)))))"
      using cp_run_append [OF r2, of "[(Put k4 v4, t5)]"] by simp
    have "\<not> fifo_contains k1 (fifo_put k4 v4 (fifo_put k3 v3 (fifo_put k2 v2 (fifo_put k1 v1 s3)))) \<and>
            fifo_contains k2 (fifo_put k4 v4 (fifo_put k3 v3 (fifo_put k2 v2 (fifo_put k1 v1 s3)))) \<and>
            fifo_contains k3 (fifo_put k4 v4 (fifo_put k3 v3 (fifo_put k2 v2 (fifo_put k1 v1 s3)))) \<and>
            fifo_contains k4 (fifo_put k4 v4 (fifo_put k3 v3 (fifo_put k2 v2 (fifo_put k1 v1 s3))))"
      if d: "distinct [k1, k2, k3, k4]"
    proof -
      have s3: "s3 = \<lparr>fifo_capacity = 3, fifo_size = 0, fifo_cache = Map.empty, fifo_queue = []\<rparr>"
        using n3 by (simp add: fifo_new_def)
      have p1: "fifo_put k1 v1 s3 =
          \<lparr>fifo_capacity = 3, fifo_size = 1, fifo_cache = [k1 \<mapsto> v1], fifo_queue = [k1]\<rparr>"
        unfolding s3 by (simp add: fifo_eval)
      have p2: "fifo_put k2 v2 (fifo_put k1 v1 s3) =
          \<lparr>fifo_capacity = 3, fifo_size = 2, fifo_cache = [k1 \<mapsto> v1, k2 \<mapsto> v2],
           fifo_queue = [k1, k2]\<rparr>"
        unfolding p1 using d by (auto simp: fifo_eval)
      have p3: "fifo_put k3 v3 (fifo_put k2 v2 (fifo_put k1 v1 s3)) =
          \<lparr>fifo_capacity = 3, fifo_size = 3, fifo_cache = [k1 \<mapsto> v1, k2 \<mapsto> v2, k3 \<mapsto> v3],
           fifo_queue = [k1, k2, k3]\<rparr>"
        unfolding p2 using d by (auto simp: fifo_eval)
      have p4: "fifo_put k4 v4 (fifo_put k3 v3 (fifo_put k2 v2 (fifo_put k1 v1 s3))) =
          \<lparr>fifo_capacity = 3, fifo_size = 3,
           fifo_cache = ([k1 \<mapsto> v1, k2 \<mapsto> v2, k3 \<mapsto> v3](k1 := None))(k4 \<mapsto> v4),
           fifo_queue = [k2, k3, k4]\<rparr>"
        unfolding p3 using d by (auto simp: fifo_eval)
      show ?thesis unfolding p4 using d by (auto simp: fifo_contains_def)
    qed
    with r3 show "\<exists>s'. cp_run ([(Put k1 v1, t1), (Put k2 v2, t2), (Put k3 v3, t3)] @
                          replicate n (Get k1, t4) @ [(Put k4 v4, t5)]) (FIFO s3) = Inr (FIFO s') \<and>
                  (distinct [k1, k2, k3, k4] \<longrightarrow>
                     \<not> fifo_contains k1 s' \<and> fifo_contains k2 s' \<and> fifo_contains k3 s' \<and>
                     fifo_contains k4 s')"
      by blast
  }
qed


theorem fifo_insertion_order_witness:
  "fifo_new 3 =
     Inr \<lparr>fifo_capacity = 3, fifo_size = 0, fifo_cache = Map.empty, fifo_queue = []\<rparr> \<and>
   cp_run [(Put (1::int) ''a'', 0), (Put 2 ''b'', 0), (Put 3 ''c'', 0), (Get 1, 0), (Get 1, 0)]
     (FIFO \<lparr>fifo_capacity = 3, fifo_size = 0, fifo_cache = Map.empty, fifo_queue = []\<rparr>) =
     Inr (FIFO \<lparr>fifo_capacity = 3, fifo_size = 3,
                fifo_cache = [1 \<mapsto> ''a'', 2 \<mapsto> ''b'', 3 \<mapsto> ''c''],
                fifo_queue = [1, 2, 3]\<rparr>) \<and>
   fifo_put 4 ''d''
       \<lparr>fifo_capacity = 3, fifo_size = 3,
        fifo_cache = [1::int \<mapsto> ''a'', 2 \<mapsto> ''b'', 3 \<mapsto> ''c''], fifo_queue = [1, 2, 3]\<rparr> =
     \<lparr>fifo_capacity = 3, fifo_size = 3,
      fifo_cache = ([1 \<mapsto> ''a'', 2 \<mapsto> ''b'', 3 \<mapsto> ''c''](1 := None))(4 \<mapsto> ''d''),
      fifo_queue = [2, 3, 4]\<rparr> \<and>
   \<not> fifo_contains 1
       \<lparr>fifo_capacity = 3, fifo_size = 3,
        fifo_cache = ([1::int \<mapsto> ''a'', 2 \<mapsto> ''b'', 3 \<mapsto> ''c''](1 := None))(4 \<mapsto> ''d''),
        fifo_queue = [2, 3, 4]\<rparr> \<and>
   fifo_contains 2
       \<lparr>fifo_capacity = 3, fifo_size = 3,
        fifo_cache = ([1::int \<mapsto> ''a'', 2 \<mapsto> ''b'', 3 \<mapsto> ''c''](1 := None))(4 \<mapsto> ''d''),
        fifo_queue = [2, 3, 4]\<rparr> \<and>
   fifo_contains 3
       \<lparr>fifo_capacity = 3, fifo_size = 3,
        fifo_cache = ([1::int \<mapsto> ''a'', 2 \<mapsto> ''b'', 3 \<mapsto> ''c''](1 := None))(4 \<mapsto> ''d''),
        fifo_queue = [2, 3, 4]\<rparr> \<and>
   fifo_contains 4
       \<lparr>fifo_capacity = 3, fifo_size = 3,
        fifo_cache = ([1::int \<mapsto> ''a'', 2 \<mapsto> ''b'', 3 \<mapsto> ''c''](1 := None))(4 \<mapsto> ''d''),
        fifo_queue = [2, 3, 4]\<rparr>"
proof -
  let ?init = "\<lparr>fifo_capacity = 3, fifo_size = 0, fifo_cache = Map.empty, fifo_queue = []\<rparr>
                :: (int, string) FifoCache"
  let ?st = "\<lparr>fifo_capacity = 3, fifo_size = 3,
                 fifo_cache = [1::int \<mapsto> ''a'', 2 \<mapsto> ''b'', 3 \<mapsto> ''c''],
                 fifo_queue = [1, 2, 3]\<rparr>"
  have new: "fifo_new 3 = Inr ?init" by (simp add: fifo_new_def)
  have run: "cp_run [(Put 1 ''a'', 0), (Put 2 ''b'', 0), (Put 3 ''c'', 0), (Get 1, 0), (Get 1, 0)]
               (FIFO ?init) = Inr (FIFO ?st)"
    by (simp add: fifo_eval)
  have full: "fifo_cache ?st 4 = None \<and> fifo_size ?st = fifo_capacity ?st" by simp
  note T = fifo_insertion_order [OF new run, where key = 4 and val = "''d''"]
  have "fifo_queue ?st \<noteq> [] \<and>
        fifo_queue (fifo_put 4 ''d'' ?st) = tl (fifo_queue ?st) @ [4] \<and>
        fifo_cache (fifo_put 4 ''d'' ?st) =
          ((fifo_cache ?st)(hd (fifo_queue ?st) := None))(4 \<mapsto> ''d'') \<and>
        \<not> fifo_contains (hd (fifo_queue ?st)) (fifo_put 4 ''d'' ?st)"
    using T [THEN conjunct2, THEN conjunct2, THEN conjunct2, THEN conjunct1] full
    by (rule mp)
  moreover have "fifo_put 4 ''d'' ?st =
     \<lparr>fifo_capacity = 3, fifo_size = 3,
      fifo_cache = ([1 \<mapsto> ''a'', 2 \<mapsto> ''b'', 3 \<mapsto> ''c''](1 := None))(4 \<mapsto> ''d''),
      fifo_queue = [2, 3, 4]\<rparr>"
    by (simp add: fifo_eval)
  ultimately show ?thesis using run by (simp add: fifo_new_def fifo_contains_def)
qed

subsection \<open>LFU: the invariant, the frequencies and the eviction\<close>

lemma bucket_addToHead_eq:
  "bucket_addToHead f key bs =
   bs(f \<mapsto> b_addToHead key (case bs f of None \<Rightarrow> new_bucket | Some b \<Rightarrow> b))"
  by (simp add: bucket_addToHead_def getOrCreateBucket_def Let_def split: option.splits)

lemma int_wrap_id: "- 2147483648 \<le> i \<Longrightarrow> i \<le> INT_MAX \<Longrightarrow> int_wrap i = i"
  by (simp add: int_wrap_def INT_MAX_def)

lemma int_wrap_overflow: "int_wrap (INT_MAX + 1) = - 2147483648"
  by (simp add: int_wrap_def INT_MAX_def)

text \<open>
  Below \<open>INT_MAX\<close> the increments are exact, and \<open>updateFrequency\<close> moves the key from
  the bucket at its frequency to the head of the next bucket.
\<close>

lemma updateFrequency_eq:
  assumes "lfu_buckets s (n_frequency node) = Some ob"
    and "1 \<le> n_frequency node" and "n_frequency node < INT_MAX"
  shows "updateFrequency key node s =
     s\<lparr>lfu_buckets :=
          ((lfu_buckets s)(n_frequency node \<mapsto> b_removeNode key ob))
            (n_frequency node + 1 \<mapsto>
               b_addToHead key
                 (case lfu_buckets s (n_frequency node + 1) of
                    None \<Rightarrow> new_bucket | Some b \<Rightarrow> b)),
       lfu_min_frequency :=
         (if b_empty (b_removeNode key ob) \<and> n_frequency node = lfu_min_frequency s
          then lfu_min_frequency s + 1 else lfu_min_frequency s),
       lfu_cache := (lfu_cache s)(key \<mapsto> node\<lparr>n_frequency := n_frequency node + 1\<rparr>)\<rparr>"
proof -
  have w: "int_wrap (n_frequency node + 1) = n_frequency node + 1"
    using assms(2,3) by (intro int_wrap_id) simp_all
  show ?thesis
  proof (cases "b_empty (b_removeNode key ob) \<and> n_frequency node = lfu_min_frequency s")
    case True
    then have "int_wrap (lfu_min_frequency s + 1) = lfu_min_frequency s + 1" using w by simp
    with True w assms(1) show ?thesis
      by (simp add: updateFrequency_def bucket_addToHead_eq Let_def)
  next
    case False
    with w assms(1) show ?thesis
      by (auto simp: updateFrequency_def bucket_addToHead_eq Let_def)
  qed
qed

lemma struct_bucket:
  "lfu_struct s \<Longrightarrow> lfu_buckets s f = Some b \<Longrightarrow>
   b_size b = int (length (b_nodes b)) \<and> distinct (b_nodes b)"
  by (simp add: lfu_struct_def)

lemma struct_member:
  "lfu_struct s \<Longrightarrow> lfu_buckets s f = Some b \<Longrightarrow> key \<in> set (b_nodes b) \<Longrightarrow>
   \<exists>node. lfu_cache s key = Some node \<and> n_frequency node = f"
  by (auto simp: lfu_struct_def)

lemma struct_cached:
  "lfu_struct s \<Longrightarrow> lfu_cache s key = Some node \<Longrightarrow>
   1 \<le> n_frequency node \<and>
   (\<exists>b. lfu_buckets s (n_frequency node) = Some b \<and> key \<in> set (b_nodes b))"
  by (auto simp: lfu_struct_def)

lemma struct_nonempty_bucket:
  assumes "lfu_struct s" and "lfu_buckets s f = Some b" and "\<not> b_empty b"
  shows "b_nodes b \<noteq> [] \<and> 1 \<le> f"
proof -
  from struct_bucket [OF assms(1,2)] assms(3) have ne: "b_nodes b \<noteq> []"
    by (auto simp: b_empty_def)
  then obtain key where "key \<in> set (b_nodes b)" by (cases "b_nodes b") auto
  from struct_member [OF assms(1,2) this] struct_cached [OF assms(1)] have "1 \<le> f" by auto
  with ne show ?thesis by simp
qed

lemma new_bucket_simps [simp]: "b_nodes new_bucket = []" "b_size new_bucket = 0"
  by (simp_all add: new_bucket_def)

lemma next_bucket_fresh:
  assumes "lfu_struct s" and "lfu_cache s key = Some node0"
  shows "key \<notin> set (b_nodes (case lfu_buckets s (n_frequency node0 + 1) of
                               None \<Rightarrow> new_bucket | Some b \<Rightarrow> b))"
proof (cases "lfu_buckets s (n_frequency node0 + 1)")
  case None
  then show ?thesis by simp
next
  case (Some b)
  show ?thesis
  proof
    assume "key \<in> set (b_nodes (case lfu_buckets s (n_frequency node0 + 1) of
                               None \<Rightarrow> new_bucket | Some b \<Rightarrow> b))"
    with Some have "key \<in> set (b_nodes b)" by simp
    from struct_member [OF assms(1) Some this] assms(2) show False by simp
  qed
qed

lemma next_bucket_wf:
  assumes "lfu_struct s"
  shows "b_size (case lfu_buckets s g of None \<Rightarrow> new_bucket | Some b \<Rightarrow> b) =
           int (length (b_nodes (case lfu_buckets s g of None \<Rightarrow> new_bucket | Some b \<Rightarrow> b))) \<and>
         distinct (b_nodes (case lfu_buckets s g of None \<Rightarrow> new_bucket | Some b \<Rightarrow> b)) \<and>
         (\<forall>k \<in> set (b_nodes (case lfu_buckets s g of None \<Rightarrow> new_bucket | Some b \<Rightarrow> b)).
            \<exists>node. lfu_cache s k = Some node \<and> n_frequency node = g)"
  using assms by (cases "lfu_buckets s g") (auto simp: lfu_struct_def)


lemma length_remove1_int:
  "x \<in> set xs \<Longrightarrow> int (length (remove1 x xs)) = int (length xs) - 1"
proof -
  assume "x \<in> set xs"
  then have "0 < length xs" by (rule length_pos_if_in_set)
  then have "int (length xs - 1) = int (length xs) - 1" by linarith
  with \<open>x \<in> set xs\<close> show ?thesis by (simp add: length_remove1)
qed

lemma updateFrequency_struct:
  assumes st: "lfu_struct s" and c: "lfu_cache s key = Some node0"
    and fr: "n_frequency node = n_frequency node0" and hi: "n_frequency node0 < INT_MAX"
  shows "lfu_struct (updateFrequency key node s)"
proof -
  let ?f = "n_frequency node"
  let ?nb = "case lfu_buckets s (?f + 1) of None \<Rightarrow> new_bucket | Some b \<Rightarrow> b"
  from struct_cached [OF st c] fr obtain ob where
    ob: "lfu_buckets s ?f = Some ob" and mem: "key \<in> set (b_nodes ob)" and f1: "1 \<le> ?f"
    by auto
  have fh: "?f < INT_MAX" using fr hi by simp
  note obw = struct_bucket [OF st ob]
  have fresh: "key \<notin> set (b_nodes ?nb)"
    using next_bucket_fresh [OF st c] fr by simp
  note nbw = next_bucket_wf [OF st, of "?f + 1"]
  let ?bs' = "((lfu_buckets s)(?f \<mapsto> b_removeNode key ob))(?f + 1 \<mapsto> b_addToHead key ?nb)"
  let ?c' = "(lfu_cache s)(key \<mapsto> node\<lparr>n_frequency := ?f + 1\<rparr>)"
  have bucket_ok: "b_size b = int (length (b_nodes b)) \<and> distinct (b_nodes b) \<and>
        (\<forall>k \<in> set (b_nodes b). \<exists>n. ?c' k = Some n \<and> n_frequency n = g)"
    if b: "?bs' g = Some b" for g b
  proof -
    consider (new) "g = ?f + 1" | (old) "g = ?f" | (other) "g \<noteq> ?f + 1" "g \<noteq> ?f" by blast
    then show ?thesis
    proof cases
      case new
      with b have b_eq: "b = b_addToHead key ?nb" by simp
      have "\<exists>n. ?c' k = Some n \<and> n_frequency n = g" if "k \<in> set (b_nodes b)" for k
      proof (cases "k = key")
        case True
        then show ?thesis using new by simp
      next
        case False
        with that b_eq have "k \<in> set (b_nodes ?nb)" by (simp add: b_addToHead_def)
        with nbw new False show ?thesis by auto
      qed
      moreover have "b_size b = int (length (b_nodes b))" "distinct (b_nodes b)"
        using nbw fresh b_eq by (simp_all add: b_addToHead_def)
      ultimately show ?thesis by blast
    next
      case old
      with b have b_eq: "b = b_removeNode key ob" by simp
      have "\<exists>n. ?c' k = Some n \<and> n_frequency n = g" if "k \<in> set (b_nodes b)" for k
      proof -
        from that b_eq obw have "k \<in> set (b_nodes ob)" "k \<noteq> key"
          by (auto simp: b_removeNode_def)
        with struct_member [OF st ob] old show ?thesis by auto
      qed
      moreover have "b_size b = int (length (b_nodes b))"
        using obw mem b_eq by (simp add: b_removeNode_def length_remove1_int)
      moreover have "distinct (b_nodes b)"
        using obw b_eq by (simp add: b_removeNode_def)
      ultimately show ?thesis by blast
    next
      case other
      with b have bs: "lfu_buckets s g = Some b" by simp
      have "\<exists>n. ?c' k = Some n \<and> n_frequency n = g" if "k \<in> set (b_nodes b)" for k
      proof -
        from struct_member [OF st bs that] obtain n where
          n: "lfu_cache s k = Some n" "n_frequency n = g" by blast
        with c fr other have "k \<noteq> key" by auto
        with n show ?thesis by simp
      qed
      with struct_bucket [OF st bs] show ?thesis by blast
    qed
  qed
  have cached_ok: "1 \<le> n_frequency n \<and> (\<exists>b. ?bs' (n_frequency n) = Some b \<and> k \<in> set (b_nodes b))"
    if n: "?c' k = Some n" for k n
  proof (cases "k = key")
    case True
    with n have "n_frequency n = ?f + 1" by auto
    with f1 True show ?thesis by (simp add: b_addToHead_def)
  next
    case False
    with n have cn: "lfu_cache s k = Some n" by simp
    from struct_cached [OF st cn] obtain b where
      b: "1 \<le> n_frequency n" "lfu_buckets s (n_frequency n) = Some b" "k \<in> set (b_nodes b)"
      by blast
    consider (new) "n_frequency n = ?f + 1" | (old) "n_frequency n = ?f"
      | (other) "n_frequency n \<noteq> ?f + 1" "n_frequency n \<noteq> ?f" by blast
    then show ?thesis
    proof cases
      case new
      with b show ?thesis by (simp add: b_addToHead_def)
    next
      case old
      with b ob False show ?thesis by (simp add: b_removeNode_def)
    next
      case other
      with b show ?thesis by simp
    qed
  qed
  have "0 < lfu_capacity s" "finite (dom (lfu_cache s))" using st by (simp_all add: lfu_struct_def)
  then show ?thesis
    unfolding updateFrequency_eq [OF ob f1 fh] lfu_struct_def
    using bucket_ok cached_ok by simp
qed

lemma updateFrequency_min_ok:
  assumes st: "lfu_struct s" and c: "lfu_cache s key = Some node0"
    and fr: "n_frequency node = n_frequency node0" and hi: "n_frequency node0 < INT_MAX"
    and mo: "min_frequency_ok s"
  shows "min_frequency_ok (updateFrequency key node s)"
proof -
  let ?f = "n_frequency node"
  let ?m = "lfu_min_frequency s"
  let ?nb = "case lfu_buckets s (?f + 1) of None \<Rightarrow> new_bucket | Some b \<Rightarrow> b"
  from struct_cached [OF st c] fr obtain ob where
    ob: "lfu_buckets s ?f = Some ob" and mem: "key \<in> set (b_nodes ob)" and f1: "1 \<le> ?f"
    by auto
  have fh: "?f < INT_MAX" using fr hi by simp
  note obw = struct_bucket [OF st ob]
  have ob_ne: "\<not> b_empty ob" using obw mem by (auto simp: b_empty_def)
  from c have "dom (lfu_cache s) \<noteq> {}" by auto
  with mo have least: "least_nonempty (lfu_buckets s) ?m" by (simp add: min_frequency_ok_def)
  then obtain mb where mb: "lfu_buckets s ?m = Some mb" "\<not> b_empty mb"
    and low: "\<And>g b. lfu_buckets s g = Some b \<Longrightarrow> \<not> b_empty b \<Longrightarrow> ?m \<le> g"
    unfolding least_nonempty_def by blast
  have m_le: "?m \<le> ?f" using low [OF ob ob_ne] .
  have nb_ne: "\<not> b_empty (b_addToHead key ?nb)"
    using next_bucket_wf [OF st, of "?f + 1"] by (simp add: b_empty_def b_addToHead_def)
  let ?ob' = "b_removeNode key ob"
  let ?bs' = "((lfu_buckets s)(?f \<mapsto> ?ob'))(?f + 1 \<mapsto> b_addToHead key ?nb)"
  let ?m' = "if b_empty ?ob' \<and> ?f = ?m then ?m + 1 else ?m"
  have "least_nonempty ?bs' ?m'"
  proof (cases "b_empty ?ob' \<and> ?f = ?m")
    case True
    have "\<exists>b. ?bs' (?m + 1) = Some b \<and> \<not> b_empty b" using True nb_ne by simp
    moreover have "?m + 1 \<le> g" if "?bs' g = Some b" "\<not> b_empty b" for g b
    proof -
      consider (new) "g = ?f + 1" | (old) "g = ?f" | (other) "g \<noteq> ?f + 1" "g \<noteq> ?f" by blast
      then show ?thesis
      proof cases
        case new
        with True show ?thesis by simp
      next
        case old
        with that True show ?thesis by simp
      next
        case other
        with that have "lfu_buckets s g = Some b" by simp
        from low [OF this that(2)] other True show ?thesis by simp
      qed
    qed
    ultimately show ?thesis using True unfolding least_nonempty_def by auto
  next
    case False
    have "\<exists>b. ?bs' ?m = Some b \<and> \<not> b_empty b"
    proof (cases "?m = ?f")
      case True
      with False show ?thesis by simp
    next
      case False
      with m_le mb show ?thesis by simp
    qed
    moreover have "?m \<le> g" if "?bs' g = Some b" "\<not> b_empty b" for g b
    proof -
      consider (new) "g = ?f + 1" | (old) "g = ?f" | (other) "g \<noteq> ?f + 1" "g \<noteq> ?f" by blast
      then show ?thesis
      proof cases
        case new
        with m_le show ?thesis by simp
      next
        case old
        with m_le show ?thesis by simp
      next
        case other
        with that have "lfu_buckets s g = Some b" by simp
        from low [OF this that(2)] show ?thesis .
      qed
    qed
    ultimately show ?thesis using False unfolding least_nonempty_def by auto
  qed
  then show ?thesis
    unfolding updateFrequency_eq [OF ob f1 fh] min_frequency_ok_def by simp
qed

lemma updateFrequency_dom:
  assumes "lfu_cache s key = Some node0"
  shows "dom (lfu_cache (updateFrequency key node s)) = dom (lfu_cache s)"
    and "lfu_capacity (updateFrequency key node s) = lfu_capacity s"
  using assms by (auto simp: updateFrequency_def Let_def split: option.splits)

lemma updateFrequency_inv:
  assumes "lfu_inv s" and "lfu_cache s key = Some node0"
    and "n_frequency node = n_frequency node0" and "n_frequency node0 < INT_MAX"
  shows "lfu_inv (updateFrequency key node s)"
proof -
  from assms(1) have st: "lfu_struct s" and mo: "min_frequency_ok s"
    and sz: "lfu_size s \<le> lfu_capacity s" by (simp_all add: lfu_inv_def)
  show ?thesis
    unfolding lfu_inv_def
    using updateFrequency_struct [OF st assms(2,3,4)]
      updateFrequency_min_ok [OF st assms(2,3,4) mo]
      updateFrequency_dom [OF assms(2), of node] sz
    by (simp add: lfu_size_def)
qed

lemma lfu_new_inv: "lfu_new capacity = Inr s \<Longrightarrow> lfu_inv s"
  by (auto simp: lfu_new_def lfu_inv_def lfu_struct_def min_frequency_ok_def lfu_size_def
      split: if_splits)

lemma lfu_clear_inv: "lfu_inv s \<Longrightarrow> lfu_inv (lfu_clear s)"
  by (simp add: lfu_inv_def lfu_struct_def min_frequency_ok_def lfu_size_def lfu_clear_def)

lemma lfu_get_inv:
  assumes "lfu_inv s" and "getFrequency key s < INT_MAX"
  shows "lfu_inv (snd (lfu_get key s))"
proof (cases "lfu_cache s key")
  case None
  with assms show ?thesis by (simp add: lfu_get_def)
next
  case (Some node)
  with assms(2) have "n_frequency node < INT_MAX" by (simp add: getFrequency_def)
  with updateFrequency_inv [OF assms(1) Some, of node] Some show ?thesis
    by (simp add: lfu_get_def)
qed

lemma lfu_put_existing:
  assumes "lfu_inv s" and "lfu_cache s key = Some node"
  shows "lfu_put key val s = updateFrequency key (node\<lparr>n_value := val\<rparr>) s"
  using assms by (simp add: lfu_put_def lfu_inv_def lfu_struct_def)

lemma length_butlast_int: "xs \<noteq> [] \<Longrightarrow> int (length xs - Suc 0) = int (length xs) - 1"
  by (cases xs) auto

lemma lfu_structI:
  assumes "0 < lfu_capacity s" and "finite (dom (lfu_cache s))"
    and "\<And>f b. lfu_buckets s f = Some b \<Longrightarrow>
           b_size b = int (length (b_nodes b)) \<and> distinct (b_nodes b) \<and>
           (\<forall>key \<in> set (b_nodes b). \<exists>node. lfu_cache s key = Some node \<and> n_frequency node = f)"
    and "\<And>key node. lfu_cache s key = Some node \<Longrightarrow>
           1 \<le> n_frequency node \<and>
           (\<exists>b. lfu_buckets s (n_frequency node) = Some b \<and> key \<in> set (b_nodes b))"
  shows "lfu_struct s"
  unfolding lfu_struct_def using assms by blast

lemma evictLFU_eq:
  assumes st: "lfu_struct s" and mo: "min_frequency_ok s" and ne: "dom (lfu_cache s) \<noteq> {}"
  shows "\<exists>b. lfu_buckets s (lfu_min_frequency s) = Some b \<and> b_nodes b \<noteq> [] \<and>
           evictLFU s =
             (Some (last (b_nodes b)),
              s\<lparr>lfu_buckets := (lfu_buckets s)(lfu_min_frequency s \<mapsto>
                   b\<lparr>b_nodes := butlast (b_nodes b), b_size := b_size b - 1\<rparr>)\<rparr>)"
proof -
  from mo ne obtain b where b: "lfu_buckets s (lfu_min_frequency s) = Some b" "\<not> b_empty b"
    unfolding min_frequency_ok_def least_nonempty_def by auto
  from struct_nonempty_bucket [OF st b] have "b_nodes b \<noteq> []" by simp
  with b show ?thesis
    by (simp add: evictLFU_def b_removeTail_def b_empty_def)
qed

lemma evict_struct:
  assumes st: "lfu_struct s" and b: "lfu_buckets s m = Some b" and ne: "b_nodes b \<noteq> []"
  shows "lfu_struct
           (s\<lparr>lfu_buckets := (lfu_buckets s)(m \<mapsto>
                  b\<lparr>b_nodes := butlast (b_nodes b), b_size := b_size b - 1\<rparr>),
              lfu_cache := (lfu_cache s)(last (b_nodes b) := None)\<rparr>)"
    and "last (b_nodes b) \<in> dom (lfu_cache s)"
proof -
  let ?ek = "last (b_nodes b)"
  let ?b' = "b\<lparr>b_nodes := butlast (b_nodes b), b_size := b_size b - 1\<rparr>"
  let ?bs' = "(lfu_buckets s)(m \<mapsto> ?b')"
  let ?c' = "(lfu_cache s)(?ek := None)"
  note bw = struct_bucket [OF st b]
  have ek_in: "?ek \<in> set (b_nodes b)" using ne by simp
  from struct_member [OF st b ek_in] obtain en where
    en: "lfu_cache s ?ek = Some en" "n_frequency en = m" by blast
  then show "?ek \<in> dom (lfu_cache s)" by auto
  have sb: "set (butlast (b_nodes b)) = set (b_nodes b) - {?ek}"
    using bw ne by (simp add: set_butlast_distinct)
  have bucket_ok: "b_size b2 = int (length (b_nodes b2)) \<and> distinct (b_nodes b2) \<and>
        (\<forall>k \<in> set (b_nodes b2). \<exists>n. ?c' k = Some n \<and> n_frequency n = g)"
    if b2: "?bs' g = Some b2" for g b2
  proof (cases "g = m")
    case True
    with b2 have b2_eq: "b2 = ?b'" by simp
    have "\<exists>n. ?c' k = Some n \<and> n_frequency n = g" if "k \<in> set (b_nodes b2)" for k
    proof -
      from that b2_eq sb have "k \<in> set (b_nodes b)" "k \<noteq> ?ek" by auto
      with struct_member [OF st b] True show ?thesis by auto
    qed
    moreover have "b_size b2 = int (length (b_nodes b2))"
      using bw ne b2_eq by (simp add: length_butlast_int)
    moreover have "distinct (b_nodes b2)" using bw b2_eq by (simp add: distinct_butlast)
    ultimately show ?thesis by blast
  next
    case False
    with b2 have bs: "lfu_buckets s g = Some b2" by simp
    have "\<exists>n. ?c' k = Some n \<and> n_frequency n = g" if "k \<in> set (b_nodes b2)" for k
    proof -
      from struct_member [OF st bs that] obtain n where
        n: "lfu_cache s k = Some n" "n_frequency n = g" by blast
      with en False have "k \<noteq> ?ek" by auto
      with n show ?thesis by simp
    qed
    with struct_bucket [OF st bs] show ?thesis by blast
  qed
  have cached_ok: "1 \<le> n_frequency n \<and> (\<exists>b2. ?bs' (n_frequency n) = Some b2 \<and> k \<in> set (b_nodes b2))"
    if n: "?c' k = Some n" for k n
  proof -
    from n have kne: "k \<noteq> ?ek" and cn: "lfu_cache s k = Some n"
      by (auto split: if_splits)
    from struct_cached [OF st cn] obtain b2 where
      b2: "1 \<le> n_frequency n" "lfu_buckets s (n_frequency n) = Some b2" "k \<in> set (b_nodes b2)"
      by blast
    show ?thesis
    proof (cases "n_frequency n = m")
      case True
      with b2 b kne sb show ?thesis by auto
    next
      case False
      with b2 show ?thesis by simp
    qed
  qed
  let ?s' = "s\<lparr>lfu_buckets := ?bs', lfu_cache := ?c'\<rparr>"
  have sel: "lfu_buckets ?s' = ?bs'" "lfu_cache ?s' = ?c'" "lfu_capacity ?s' = lfu_capacity s"
    by simp_all
  show "lfu_struct ?s'"
  proof (rule lfu_structI)
    show "0 < lfu_capacity ?s'" using st by (simp add: lfu_struct_def)
    show "finite (dom (lfu_cache ?s'))" using st by (simp add: lfu_struct_def)
    show "b_size b2 = int (length (b_nodes b2)) \<and> distinct (b_nodes b2) \<and>
           (\<forall>key \<in> set (b_nodes b2). \<exists>node. lfu_cache ?s' key = Some node \<and> n_frequency node = g)"
      if "lfu_buckets ?s' g = Some b2" for g b2
      using that unfolding sel by (rule bucket_ok)
    show "1 \<le> n_frequency n \<and>
           (\<exists>b2. lfu_buckets ?s' (n_frequency n) = Some b2 \<and> k \<in> set (b_nodes b2))"
      if "lfu_cache ?s' k = Some n" for k n
      using that unfolding sel by (rule cached_ok)
  qed
qed

lemma insert_new_inv:
  assumes st: "lfu_struct s" and c: "lfu_cache s key = None"
    and sz: "lfu_size s + 1 \<le> lfu_capacity s"
  shows "lfu_inv
           (s\<lparr>lfu_buckets := bucket_addToHead 1 key (lfu_buckets s),
              lfu_min_frequency := 1,
              lfu_cache := (lfu_cache s)(key \<mapsto> \<lparr>n_value = val, n_frequency = 1\<rparr>)\<rparr>)"
proof -
  let ?nb = "case lfu_buckets s 1 of None \<Rightarrow> new_bucket | Some b \<Rightarrow> b"
  let ?bs' = "(lfu_buckets s)(1 \<mapsto> b_addToHead key ?nb)"
  let ?c' = "(lfu_cache s)(key \<mapsto> \<lparr>n_value = val, n_frequency = 1\<rparr>)"
  let ?s' = "s\<lparr>lfu_buckets := ?bs', lfu_min_frequency := 1, lfu_cache := ?c'\<rparr>"
  note nbw = next_bucket_wf [OF st, of 1]
  have fresh: "key \<notin> set (b_nodes b)" if "lfu_buckets s g = Some b" for g b
    using struct_member [OF st that, of key] c by auto
  have fresh_nb: "key \<notin> set (b_nodes ?nb)"
    using fresh [of 1] by (cases "lfu_buckets s 1") auto
  have bucket_ok: "b_size b = int (length (b_nodes b)) \<and> distinct (b_nodes b) \<and>
        (\<forall>k \<in> set (b_nodes b). \<exists>n. ?c' k = Some n \<and> n_frequency n = g)"
    if b: "?bs' g = Some b" for g b
  proof (cases "g = 1")
    case True
    with b have b_eq: "b = b_addToHead key ?nb" by simp
    have "\<exists>n. ?c' k = Some n \<and> n_frequency n = g" if "k \<in> set (b_nodes b)" for k
    proof (cases "k = key")
      case True
      then show ?thesis using \<open>g = 1\<close> by simp
    next
      case False
      with that b_eq have "k \<in> set (b_nodes ?nb)" by (simp add: b_addToHead_def)
      with nbw \<open>g = 1\<close> False show ?thesis by auto
    qed
    moreover have "b_size b = int (length (b_nodes b))" "distinct (b_nodes b)"
      using nbw fresh_nb b_eq by (simp_all add: b_addToHead_def)
    ultimately show ?thesis by blast
  next
    case False
    with b have bs: "lfu_buckets s g = Some b" by simp
    have "\<exists>n. ?c' k = Some n \<and> n_frequency n = g" if "k \<in> set (b_nodes b)" for k
    proof -
      from struct_member [OF st bs that] obtain n where
        n: "lfu_cache s k = Some n" "n_frequency n = g" by blast
      with c have "k \<noteq> key" by auto
      with n show ?thesis by simp
    qed
    with struct_bucket [OF st bs] show ?thesis by blast
  qed
  have cached_ok: "1 \<le> n_frequency n \<and> (\<exists>b. ?bs' (n_frequency n) = Some b \<and> k \<in> set (b_nodes b))"
    if n: "?c' k = Some n" for k n
  proof (cases "k = key")
    case True
    with n have "n_frequency n = 1" by auto
    with True show ?thesis by (simp add: b_addToHead_def)
  next
    case False
    with n have cn: "lfu_cache s k = Some n" by simp
    from struct_cached [OF st cn] obtain b where
      b: "1 \<le> n_frequency n" "lfu_buckets s (n_frequency n) = Some b" "k \<in> set (b_nodes b)"
      by blast
    then show ?thesis by (cases "n_frequency n = 1") (auto simp: b_addToHead_def)
  qed
  have cap: "0 < lfu_capacity s" and fin: "finite (dom (lfu_cache s))"
    using st by (simp_all add: lfu_struct_def)
  have sel: "lfu_buckets ?s' = ?bs'" "lfu_cache ?s' = ?c'" "lfu_capacity ?s' = lfu_capacity s"
    "lfu_min_frequency ?s' = 1"
    by simp_all
  have struct: "lfu_struct ?s'"
  proof (rule lfu_structI)
    show "0 < lfu_capacity ?s'" using cap by simp
    show "finite (dom (lfu_cache ?s'))" using fin by simp
    show "b_size b = int (length (b_nodes b)) \<and> distinct (b_nodes b) \<and>
           (\<forall>key \<in> set (b_nodes b). \<exists>node. lfu_cache ?s' key = Some node \<and> n_frequency node = g)"
      if "lfu_buckets ?s' g = Some b" for g b
      using that unfolding sel by (rule bucket_ok)
    show "1 \<le> n_frequency n \<and>
           (\<exists>b. lfu_buckets ?s' (n_frequency n) = Some b \<and> k \<in> set (b_nodes b))"
      if "lfu_cache ?s' k = Some n" for k n
      using that unfolding sel by (rule cached_ok)
  qed
  have "\<not> b_empty (b_addToHead key ?nb)"
    using nbw by (simp add: b_empty_def b_addToHead_def)
  moreover have "1 \<le> g" if "?bs' g = Some b" "\<not> b_empty b" for g b
  proof (cases "g = 1")
    case True
    then show ?thesis by simp
  next
    case False
    with that have "lfu_buckets s g = Some b" by simp
    from struct_nonempty_bucket [OF st this that(2)] show ?thesis by simp
  qed
  ultimately have "least_nonempty ?bs' 1"
    unfolding least_nonempty_def by auto
  then have mo: "min_frequency_ok ?s'" unfolding min_frequency_ok_def sel by simp
  have "key \<notin> dom (lfu_cache s)" using c by auto
  then have "card (dom ?c') = card (dom (lfu_cache s)) + 1" using fin by simp
  with sz have "lfu_size ?s' \<le> lfu_capacity ?s'" unfolding lfu_size_def sel by simp
  with struct mo show ?thesis
    unfolding lfu_inv_def bucket_addToHead_eq by simp
qed

lemma lfu_put_new_room:
  assumes "lfu_inv s" and "lfu_cache s key = None" and "\<not> lfu_size s \<ge> lfu_capacity s"
  shows "lfu_put key val s =
           s\<lparr>lfu_buckets := bucket_addToHead 1 key (lfu_buckets s),
             lfu_min_frequency := 1,
             lfu_cache := (lfu_cache s)(key \<mapsto> \<lparr>n_value = val, n_frequency = 1\<rparr>)\<rparr>"
proof -
  have cap: "0 < lfu_capacity s" using assms(1) by (simp add: lfu_inv_def lfu_struct_def)
  have "\<not> card (dom (lfu_cache s)) \<ge> size_t_of (lfu_capacity s)"
    using assms(3) by (simp add: size_t_of_le [OF cap] lfu_size_def)
  with cap assms(2) show ?thesis by (simp add: lfu_put_def Let_def)
qed

lemma lfu_full_nonempty:
  assumes "lfu_inv s" and "lfu_size s \<ge> lfu_capacity s"
  shows "dom (lfu_cache s) \<noteq> {}"
proof
  assume "dom (lfu_cache s) = {}"
  then have "lfu_size s = 0" by (simp add: lfu_size_def)
  with assms show False by (simp add: lfu_inv_def lfu_struct_def)
qed

lemma lfu_put_new_full:
  assumes inv: "lfu_inv s" and c: "lfu_cache s key = None"
    and full: "lfu_size s \<ge> lfu_capacity s"
  shows "\<exists>b. lfu_buckets s (lfu_min_frequency s) = Some b \<and> b_nodes b \<noteq> [] \<and>
           lfu_put key val s =
             s\<lparr>lfu_buckets :=
                  bucket_addToHead 1 key
                    ((lfu_buckets s)(lfu_min_frequency s \<mapsto>
                       b\<lparr>b_nodes := butlast (b_nodes b), b_size := b_size b - 1\<rparr>)),
               lfu_min_frequency := 1,
               lfu_cache := ((lfu_cache s)(last (b_nodes b) := None))
                              (key \<mapsto> \<lparr>n_value = val, n_frequency = 1\<rparr>)\<rparr>"
proof -
  from inv have st: "lfu_struct s" and mo: "min_frequency_ok s" by (simp_all add: lfu_inv_def)
  from evictLFU_eq [OF st mo lfu_full_nonempty [OF inv full]] obtain b where
    b: "lfu_buckets s (lfu_min_frequency s) = Some b" "b_nodes b \<noteq> []"
    and ev: "evictLFU s =
             (Some (last (b_nodes b)),
              s\<lparr>lfu_buckets := (lfu_buckets s)(lfu_min_frequency s \<mapsto>
                   b\<lparr>b_nodes := butlast (b_nodes b), b_size := b_size b - 1\<rparr>)\<rparr>)"
    by blast
  have cap: "0 < lfu_capacity s" using st by (simp add: lfu_struct_def)
  have "card (dom (lfu_cache s)) \<ge> size_t_of (lfu_capacity s)"
    using full by (simp add: size_t_of_le [OF cap] lfu_size_def)
  with c cap ev have "lfu_put key val s =
             s\<lparr>lfu_buckets :=
                  bucket_addToHead 1 key
                    ((lfu_buckets s)(lfu_min_frequency s \<mapsto>
                       b\<lparr>b_nodes := butlast (b_nodes b), b_size := b_size b - 1\<rparr>)),
               lfu_min_frequency := 1,
               lfu_cache := ((lfu_cache s)(last (b_nodes b) := None))
                              (key \<mapsto> \<lparr>n_value = val, n_frequency = 1\<rparr>)\<rparr>"
    by (simp add: lfu_put_def Let_def)
  with b show ?thesis by blast
qed

lemma lfu_put_inv:
  assumes inv: "lfu_inv s" and hi: "getFrequency key s < INT_MAX"
  shows "lfu_inv (lfu_put key val s)"
proof (cases "lfu_cache s key")
  case (Some node)
  with hi have "n_frequency node < INT_MAX" by (simp add: getFrequency_def)
  then show ?thesis
    unfolding lfu_put_existing [OF inv Some]
    by (intro updateFrequency_inv [OF inv Some]) simp_all
next
  case None
  from inv have st: "lfu_struct s" and sz: "lfu_size s \<le> lfu_capacity s"
    by (simp_all add: lfu_inv_def)
  show ?thesis
  proof (cases "lfu_size s \<ge> lfu_capacity s")
    case False
    then have "lfu_size s + 1 \<le> lfu_capacity s" by simp
    from insert_new_inv [OF st None this, of val] show ?thesis
      unfolding lfu_put_new_room [OF inv None False] .
  next
    case True
    from lfu_put_new_full [OF inv None True, of val] obtain b where
      b: "lfu_buckets s (lfu_min_frequency s) = Some b" "b_nodes b \<noteq> []"
      and put: "lfu_put key val s =
             s\<lparr>lfu_buckets :=
                  bucket_addToHead 1 key
                    ((lfu_buckets s)(lfu_min_frequency s \<mapsto>
                       b\<lparr>b_nodes := butlast (b_nodes b), b_size := b_size b - 1\<rparr>)),
               lfu_min_frequency := 1,
               lfu_cache := ((lfu_cache s)(last (b_nodes b) := None))
                              (key \<mapsto> \<lparr>n_value = val, n_frequency = 1\<rparr>)\<rparr>"
      by blast
    let ?s1 = "s\<lparr>lfu_buckets := (lfu_buckets s)(lfu_min_frequency s \<mapsto>
                  b\<lparr>b_nodes := butlast (b_nodes b), b_size := b_size b - 1\<rparr>),
              lfu_cache := (lfu_cache s)(last (b_nodes b) := None)\<rparr>"
    note ev = evict_struct [OF st b]
    have c1: "lfu_cache ?s1 key = None" using None by simp
    have fin: "finite (dom (lfu_cache s))" using st by (simp add: lfu_struct_def)
    have "card (dom (lfu_cache s) - {last (b_nodes b)}) = card (dom (lfu_cache s)) - 1"
      using ev(2) fin by simp
    moreover have "0 < card (dom (lfu_cache s))"
      using ev(2) fin by (metis card_gt_0_iff empty_iff)
    ultimately have "lfu_size ?s1 + 1 \<le> lfu_capacity ?s1"
      using sz by (simp add: lfu_size_def)
    from insert_new_inv [OF ev(1) c1 this, of val] show ?thesis
      unfolding put by simp
  qed
qed

lemma lfu_freq_le_mono: "lfu_freq_le n s \<Longrightarrow> n \<le> m \<Longrightarrow> lfu_freq_le m s"
  by (fastforce simp: lfu_freq_le_def)

lemma lfu_freq_leD: "lfu_freq_le n s \<Longrightarrow> lfu_cache s key = Some node \<Longrightarrow> n_frequency node \<le> n"
  by (simp add: lfu_freq_le_def)

lemma updateFrequency_freq_le:
  assumes "lfu_freq_le n s" and "lfu_struct s" and "lfu_cache s key = Some node0"
    and "n_frequency node = n_frequency node0" and "n < INT_MAX"
  shows "lfu_freq_le (n + 1) (updateFrequency key node s)"
proof -
  from struct_cached [OF assms(2,3)] assms(4) obtain ob where
    ob: "lfu_buckets s (n_frequency node) = Some ob" and f1: "1 \<le> n_frequency node"
    by auto
  from assms(1,3,4) have le: "n_frequency node \<le> n" by (auto simp: lfu_freq_le_def)
  with assms(5) have fh: "n_frequency node < INT_MAX" by simp
  have "n_frequency nd \<le> n + 1"
    if "((lfu_cache s)(key \<mapsto> node\<lparr>n_frequency := n_frequency node + 1\<rparr>)) k = Some nd"
    for k nd
  proof (cases "k = key")
    case True
    with that le show ?thesis by auto
  next
    case False
    with that lfu_freq_leD [OF assms(1), of k nd] show ?thesis by simp
  qed
  then show ?thesis
    unfolding updateFrequency_eq [OF ob f1 fh] lfu_freq_le_def by simp
qed

lemma lfu_freq_le_frequency:
  "lfu_freq_le n s \<Longrightarrow> 0 \<le> n \<Longrightarrow> getFrequency key s \<le> n"
  by (auto simp: lfu_freq_le_def getFrequency_def split: option.splits)

lemma lfu_get_freq_le:
  assumes "lfu_inv s" and "lfu_freq_le n s" and "n < INT_MAX"
  shows "lfu_freq_le (n + 1) (snd (lfu_get key s))"
proof (cases "lfu_cache s key")
  case None
  with lfu_freq_le_mono [OF assms(2), of "n + 1"] show ?thesis by (simp add: lfu_get_def)
next
  case (Some node)
  from assms(1) have st: "lfu_struct s" by (simp add: lfu_inv_def)
  from updateFrequency_freq_le [OF assms(2) st Some _ assms(3), of node] Some show ?thesis
    by (simp add: lfu_get_def)
qed

lemma lfu_put_freq_le:
  assumes inv: "lfu_inv s" and le: "lfu_freq_le n s" and n0: "0 \<le> n" and hi: "n < INT_MAX"
  shows "lfu_freq_le (n + 1) (lfu_put key val s)"
proof (cases "lfu_cache s key")
  case (Some node)
  from inv have st: "lfu_struct s" by (simp add: lfu_inv_def)
  show ?thesis
    unfolding lfu_put_existing [OF inv Some]
    by (rule updateFrequency_freq_le [OF le st Some _ hi]) simp
next
  case None
  show ?thesis
  proof (cases "lfu_size s \<ge> lfu_capacity s")
    case False
    have "n_frequency nd \<le> n + 1"
      if "((lfu_cache s)(key \<mapsto> \<lparr>n_value = val, n_frequency = 1\<rparr>)) k = Some nd" for k nd
    proof (cases "k = key")
      case True
      with that n0 show ?thesis by auto
    next
      case False
      with that lfu_freq_leD [OF le, of k nd] show ?thesis by simp
    qed
    then show ?thesis
      unfolding lfu_put_new_room [OF inv None False] lfu_freq_le_def by simp
  next
    case True
    from lfu_put_new_full [OF inv None True, of val] obtain b where
      put: "lfu_put key val s =
             s\<lparr>lfu_buckets :=
                  bucket_addToHead 1 key
                    ((lfu_buckets s)(lfu_min_frequency s \<mapsto>
                       b\<lparr>b_nodes := butlast (b_nodes b), b_size := b_size b - 1\<rparr>)),
               lfu_min_frequency := 1,
               lfu_cache := ((lfu_cache s)(last (b_nodes b) := None))
                              (key \<mapsto> \<lparr>n_value = val, n_frequency = 1\<rparr>)\<rparr>"
      by blast
    have "n_frequency nd \<le> n + 1"
      if "(((lfu_cache s)(last (b_nodes b) := None))
             (key \<mapsto> \<lparr>n_value = val, n_frequency = 1\<rparr>)) k = Some nd" for k nd
    proof (cases "k = key")
      case True
      with that n0 show ?thesis by auto
    next
      case False
      with that have "lfu_cache s k = Some nd" by (auto split: if_splits)
      with lfu_freq_leD [OF le, of k nd] show ?thesis by simp
    qed
    then show ?thesis
      unfolding put lfu_freq_le_def by simp
  qed
qed

lemma cp_apply_lfu_inv:
  assumes inv: "lfu_inv s" and le: "lfu_freq_le n s" and n0: "0 \<le> n" and hi: "n < INT_MAX"
  shows "\<exists>s'. cp_apply x (LFU s) = Inr (LFU s') \<and> lfu_inv s' \<and> lfu_freq_le (n + 1) s'"
proof -
  obtain op now where x: "x = (op, now)" by (cases x)
  have fr: "getFrequency key s < INT_MAX" for key
    using lfu_freq_le_frequency [OF le n0, of key] hi by simp
  show ?thesis
  proof (cases op)
    case (Get key)
    with x show ?thesis
      using lfu_get_inv [OF inv fr, of key] lfu_get_freq_le [OF inv le hi, of key]
      by (cases "lfu_get key s") auto
  next
    case (Put key val)
    with x lfu_put_inv [OF inv fr, of key val] lfu_put_freq_le [OF inv le n0 hi, of key val]
    show ?thesis by auto
  next
    case (Contains key)
    with x inv lfu_freq_le_mono [OF le, of "n + 1"] show ?thesis by simp
  next
    case Clear
    with x lfu_clear_inv [OF inv] show ?thesis by (simp add: lfu_freq_le_def lfu_clear_def)
  qed
qed

lemma cp_run_lfu_inv:
  "lfu_inv s \<Longrightarrow> lfu_freq_le n s \<Longrightarrow> 0 \<le> n \<Longrightarrow> n + int (length ops) \<le> INT_MAX \<Longrightarrow>
   \<exists>s'. cp_run ops (LFU s) = Inr (LFU s') \<and> lfu_inv s' \<and> lfu_freq_le (n + int (length ops)) s'"
proof (induction ops arbitrary: s n)
  case Nil
  then show ?case by simp
next
  case (Cons x ops)
  from Cons.prems(4) have hi: "n < INT_MAX" by simp
  from cp_apply_lfu_inv [OF Cons.prems(1,2,3) hi, of x] obtain s1 where
    s1: "cp_apply x (LFU s) = Inr (LFU s1)" "lfu_inv s1" "lfu_freq_le (n + 1) s1" by blast
  from Cons.prems(3,4) have "0 \<le> n + 1" "n + 1 + int (length ops) \<le> INT_MAX" by simp_all
  from Cons.IH [OF s1(2,3) this] s1(1) show ?case by (simp add: ac_simps)
qed

lemma lfu_new_freq_le: "lfu_new capacity = Inr s \<Longrightarrow> lfu_freq_le 0 s"
  by (auto simp: lfu_new_def lfu_freq_le_def split: if_splits)



























subsection \<open>Round trip of put and get\<close>

lemma lfu_put_capacity: "lfu_capacity (lfu_put key val s) = lfu_capacity s"
  by (simp add: lfu_put_def updateFrequency_def evictLFU_def b_removeTail_def Let_def
      split: option.splits prod.splits)

lemma lfu_get_capacity: "lfu_capacity (snd (lfu_get key s)) = lfu_capacity s"
  by (simp add: lfu_get_def updateFrequency_def Let_def split: option.splits)

lemma cp_apply_lfu_capacity:
  "\<exists>s'. cp_apply x (LFU s) = Inr (LFU s') \<and> lfu_capacity s' = lfu_capacity s"
proof -
  obtain op now where x: "x = (op, now)" by (cases x)
  show ?thesis
  proof (cases op)
    case (Get key)
    with x lfu_get_capacity [of key s] show ?thesis by (cases "lfu_get key s") auto
  next
    case (Put key val)
    with x show ?thesis by (simp add: lfu_put_capacity)
  next
    case (Contains key)
    with x show ?thesis by simp
  next
    case Clear
    with x show ?thesis by (simp add: lfu_clear_def)
  qed
qed

lemma cp_run_lfu_capacity:
  "\<exists>s'. cp_run ops (LFU s) = Inr (LFU s') \<and> lfu_capacity s' = lfu_capacity s"
proof (induction ops arbitrary: s)
  case Nil
  then show ?case by simp
next
  case (Cons x ops)
  from cp_apply_lfu_capacity [of x s] obtain s1 where
    "cp_apply x (LFU s) = Inr (LFU s1)" "lfu_capacity s1 = lfu_capacity s" by blast
  with Cons.IH [of s1] show ?case by simp
qed

lemma cp_fresh_constructed:
  "cp_fresh e \<longleftrightarrow>
     (\<exists>c s. lru_new c = Inr s \<and> e = LRU s) \<or> (\<exists>c s. lfu_new c = Inr s \<and> e = LFU s) \<or>
     (\<exists>c s. fifo_new c = Inr s \<and> e = FIFO s) \<or>
     (\<exists>c k s. lruk_new c k = Inr s \<and> e = LRU_K s)"
  by (cases e)
     (auto simp: lru_new_def lfu_new_def fifo_new_def lruk_new_def split: if_splits)

text \<open>
  What a run from a constructor guarantees about the engine it reaches: the
  representation invariant for LRU, FIFO and LRU-K, and a positive capacity for LFU (whose
  invariant needs in addition that no counter has overflowed).
\<close>

lemma cp_reachable_sound:
  assumes "cp_fresh e0" and "cp_run ops0 e0 = Inr e"
  shows "(\<exists>s. e = LFU s \<and> 0 < lfu_capacity s) \<or> ((\<forall>s. e \<noteq> LFU s) \<and> cp_inv e)"
proof (cases e0)
  case (LRU s0)
  with assms(1) have "lru_inv s0" by (auto intro: lru_new_inv)
  from cp_run_lru_inv [OF this, of ops0] assms(2) LRU show ?thesis by auto
next
  case (LFU s0)
  with assms(1) have "0 < lfu_capacity s0" by (auto simp: lfu_new_def split: if_splits)
  with cp_run_lfu_capacity [of ops0 s0] assms(2) LFU show ?thesis by auto
next
  case (FIFO s0)
  with assms(1) have "fifo_inv s0" by (auto intro: fifo_new_inv)
  from cp_run_fifo_inv [OF this, of ops0] assms(2) FIFO show ?thesis by auto
next
  case (LRU_K s0)
  with assms(1) have "lruk_inv s0" by (auto intro: lruk_new_inv)
  from cp_run_lruk_inv [OF this, of ops0] assms(2) LRU_K show ?thesis by auto
qed

lemma cp_sound_capacity:
  assumes "(\<exists>s. e = LFU s \<and> 0 < lfu_capacity s) \<or> ((\<forall>s. e \<noteq> LFU s) \<and> cp_inv e)"
  shows "0 < cp_capacity e"
  using assms by (cases e) (auto simp: lru_inv_def fifo_inv_def lruk_inv_def)

lemma cp_put_total:
  assumes "(\<exists>s. e = LFU s \<and> 0 < lfu_capacity s) \<or> ((\<forall>s. e \<noteq> LFU s) \<and> cp_inv e)"
  shows "\<exists>e1. cp_put k v now e = Inr e1"
proof (cases e)
  case (LRU s)
  with assms have "lru_inv s" by simp
  from cp_apply_lru_inv [OF this, of "(Put k v, now)"] LRU show ?thesis by auto
next
  case (LFU s)
  then show ?thesis by simp
next
  case (FIFO s)
  then show ?thesis by simp
next
  case (LRU_K s)
  with assms have "lruk_inv s" by simp
  from cp_apply_lruk_inv [OF this, of "(Put k v, now)"] LRU_K show ?thesis by auto
qed

lemma lruk_put_cached_visible:
  assumes "lruk_inv s" and "lruk_contains key s" and "lruk_put key val now s = Inr s'"
  shows "lruk_contains key s'"
proof -
  from assms(2) obtain r where "map_of (lruk_cache s) key = Some r"
    by (auto simp: lruk_contains_def)
  with assms(3) show ?thesis
    by (auto simp: lruk_put_def update_conv' lruk_contains_def split: if_splits)
qed

lemma lruk_put_visible_iff:
  assumes inv: "lruk_inv s" and put: "lruk_put k v now s = Inr s'"
  shows "lruk_contains k s' \<longleftrightarrow>
           lruk_contains k s \<or> getHistoryAccessCount k s + 1 = lruk_k s"
proof (cases "lruk_contains k s")
  case True
  with lruk_put_cached_visible [OF inv True put] show ?thesis by simp
next
  case False
  from count_below_k [OF inv, of k]
  consider "getHistoryAccessCount k s + 1 < lruk_k s"
    | "getHistoryAccessCount k s + 1 = lruk_k s" by linarith
  then show ?thesis
  proof cases
    case 1
    from lruk_put_below_invisible [OF inv False 1, of v now now] put False 1 show ?thesis
      by auto
  next
    case 2
    from lruk_put_promote_visible [OF inv False 2, of v now] put 2 show ?thesis
      by (auto simp: lruk_contains_def)
  qed
qed

lemma cp_put_visible_iff:
  assumes ok: "(\<exists>s. e = LFU s \<and> 0 < lfu_capacity s) \<or> ((\<forall>s. e \<noteq> LFU s) \<and> cp_inv e)"
    and put: "cp_put k v now e = Inr e1"
  shows "cp_contains k e1 \<longleftrightarrow>
           (\<forall>s. e = LRU_K s \<longrightarrow>
                lruk_contains k s \<or> getHistoryAccessCount k s + 1 = lruk_k s)"
proof (cases "\<exists>s. e = LRU_K s")
  case False
  with cp_put_visible [OF put cp_sound_capacity [OF ok]] show ?thesis by auto
next
  case True
  then obtain s where e: "e = LRU_K s" by blast
  with ok have inv: "lruk_inv s" by simp
  from put e obtain s' where s': "lruk_put k v now s = Inr s'" "e1 = LRU_K s'"
    by (auto simp: map_sum_eq_Inr)
  from lruk_put_visible_iff [OF inv s'(1)] e s'(2) show ?thesis by simp
qed

text \<open>
  Claim C8, as amended.  The claim "after \<open>put(k, v)\<close>, as long as no later operation
  evicts \<open>k\<close>, \<open>get(k)\<close> returns \<open>v\<close>" fails for the LRU-K engine, where a put below K
  accesses stores no value (see the counterexample below).  What holds, for every engine
  \<open>e\<close> that a run \<open>ops0\<close> reaches from a constructor, every key and every value:
  \<open>put(k, v)\<close> returns; it leaves \<open>k\<close> visible in the LRU, FIFO and LFU engines always,
  and in the LRU-K engine exactly when \<open>k\<close> was already promoted or this put is the
  K-th access recorded for \<open>k\<close>; and when it leaves \<open>k\<close> visible, then after any further
  operations, none of them a put on \<open>k\<close> and \<open>k\<close> visible after each of them (so \<open>k\<close>
  is neither evicted nor cleared), \<open>get(k)\<close> returns \<open>v\<close>.
\<close>

theorem put_then_get_round_trip:
  assumes "cp_fresh e0" and "cp_run ops0 e0 = Inr e"
  shows "\<exists>e1. cp_put k v now e = Inr e1 \<and>
           (cp_contains k e1 \<longleftrightarrow>
              (\<forall>s. e = LRU_K s \<longrightarrow>
                   lruk_contains k s \<or> getHistoryAccessCount k s + 1 = lruk_k s)) \<and>
           (\<forall>ops e2 now'.
              cp_contains k e1 \<and> cp_run ops e1 = Inr e2 \<and>
              (\<forall>x \<in> set ops. \<forall>v'. fst x \<noteq> Put k v') \<and>
              (\<forall>n \<le> length ops. \<forall>e'. cp_run (take n ops) e1 = Inr e' \<longrightarrow> cp_contains k e')
              \<longrightarrow> fst (cp_get k now' e2) = Inr v)"
proof -
  note ok = cp_reachable_sound [OF assms]
  from cp_put_total [OF ok, of k v now] obtain e1 where put: "cp_put k v now e = Inr e1"
    by blast
  have "fst (cp_get k now' e2) = Inr v"
    if a: "cp_contains k e1 \<and> cp_run ops e1 = Inr e2 \<and>
          (\<forall>x \<in> set ops. \<forall>v'. fst x \<noteq> Put k v') \<and>
          (\<forall>n \<le> length ops. \<forall>e'. cp_run (take n ops) e1 = Inr e' \<longrightarrow> cp_contains k e')"
    for ops e2 now'
  proof -
    have "cp_value k e1 = Some v"
      using cp_put_value [OF put _ cp_sound_capacity [OF ok]] a by simp
    then have "cp_value k e2 = Some v"
      using cp_run_keeps_value [of k e1 v ops e2] a by blast
    then show ?thesis by (simp add: cp_get_value)
  qed
  with put cp_put_visible_iff [OF ok put] show ?thesis by blast
qed

text \<open>
  Counterexample to claim C8 as stated: LRU-K with K = 2; after \<open>put(1, "a")\<close> on a new
  engine nothing has been evicted, and \<open>get(1)\<close> throws \<open>out_of_range\<close>.
\<close>

theorem lruk_put_then_get_counterexample:
  "cp_put (1::int) ''a'' 1
     (LRU_K \<lparr>lruk_capacity = 3, lruk_k = 2, lruk_history = [], lruk_cache = []\<rparr>) =
   Inr (LRU_K \<lparr>lruk_capacity = 3, lruk_k = 2,
               lruk_history = [(1, \<lparr>h_key = 1, h_access_times = [1]\<rparr>)],
               lruk_cache = []\<rparr>) \<and>
   cp_get (1::int) 2
     (LRU_K \<lparr>lruk_capacity = 3, lruk_k = 2,
             lruk_history = [(1, \<lparr>h_key = 1, h_access_times = [1]\<rparr>)],
             lruk_cache = ([] :: (int \<times> (int, string) CacheRecord) list)\<rparr>) =
   (Inl out_of_range,
    LRU_K \<lparr>lruk_capacity = 3, lruk_k = 2,
            lruk_history = [(1, \<lparr>h_key = 1, h_access_times = [1]\<rparr>)],
            lruk_cache = []\<rparr>)"
  by (simp add: lruk_eval)

theorem put_then_get_round_trip_witness:
  "cp_fresh (LRU_K \<lparr>lruk_capacity = 3, lruk_k = 2, lruk_history = [],
                    lruk_cache = ([] :: (int \<times> (int, string) CacheRecord) list)\<rparr>) \<and>
   cp_run [(Put (1::int) ''a'', 1)]
         (LRU_K \<lparr>lruk_capacity = 3, lruk_k = 2, lruk_history = [], lruk_cache = []\<rparr>) =
     Inr (LRU_K \<lparr>lruk_capacity = 3, lruk_k = 2,
                 lruk_history = [(1, \<lparr>h_key = 1, h_access_times = [1]\<rparr>)],
                 lruk_cache = []\<rparr>) \<and>
   cp_put (1::int) ''b'' 2
         (LRU_K \<lparr>lruk_capacity = 3, lruk_k = 2,
                 lruk_history = [(1, \<lparr>h_key = 1, h_access_times = [1]\<rparr>)],
                 lruk_cache = []\<rparr>) =
     Inr (LRU_K \<lparr>lruk_capacity = 3, lruk_k = 2, lruk_history = [],
                 lruk_cache = [(1, \<lparr>c_key = 1, c_value = ''b'', c_access_times = [1, 2]\<rparr>)]\<rparr>) \<and>
   cp_contains (1::int)
         (LRU_K \<lparr>lruk_capacity = 3, lruk_k = 2, lruk_history = [],
                 lruk_cache = [(1, \<lparr>c_key = 1, c_value = ''b'', c_access_times = [1, 2]\<rparr>)]\<rparr>) \<and>
   cp_run [(Get 1, 3), (Put 2 ''c'', 4)]
         (LRU_K \<lparr>lruk_capacity = 3, lruk_k = 2, lruk_history = [],
                 lruk_cache = [(1::int, \<lparr>c_key = 1, c_value = ''b'', c_access_times = [1, 2]\<rparr>)]\<rparr>) =
     Inr (LRU_K \<lparr>lruk_capacity = 3, lruk_k = 2,
                 lruk_history = [(2, \<lparr>h_key = 2, h_access_times = [4]\<rparr>)],
                 lruk_cache = [(1, \<lparr>c_key = 1, c_value = ''b'', c_access_times = [2, 3]\<rparr>)]\<rparr>) \<and>
   fst (cp_get (1::int) 5
         (LRU_K \<lparr>lruk_capacity = 3, lruk_k = 2,
                 lruk_history = [(2, \<lparr>h_key = 2, h_access_times = [4]\<rparr>)],
                 lruk_cache = [(1, \<lparr>c_key = 1, c_value = ''b'', c_access_times = [2, 3]\<rparr>)]\<rparr>)) =
     Inr ''b''"
proof -
  let ?init = "LRU_K \<lparr>lruk_capacity = 3, lruk_k = 2, lruk_history = [],
                    lruk_cache = ([] :: (int \<times> (int, string) CacheRecord) list)\<rparr>"
  let ?e = "LRU_K \<lparr>lruk_capacity = 3, lruk_k = 2,
                 lruk_history = [(1::int, \<lparr>h_key = 1, h_access_times = [1]\<rparr>)],
                 lruk_cache = ([] :: (int \<times> (int, string) CacheRecord) list)\<rparr>"
  let ?e1 = "LRU_K \<lparr>lruk_capacity = 3, lruk_k = 2, lruk_history = [],
                 lruk_cache = [(1::int, \<lparr>c_key = 1, c_value = ''b'', c_access_times = [1, 2]\<rparr>)]\<rparr>"
  let ?e2 = "LRU_K \<lparr>lruk_capacity = 3, lruk_k = 2,
                 lruk_history = [(2::int, \<lparr>h_key = 2, h_access_times = [4]\<rparr>)],
                 lruk_cache = [(1, \<lparr>c_key = 1, c_value = ''b'', c_access_times = [2, 3]\<rparr>)]\<rparr>"
  let ?pre = "[(Put (1::int) ''a'', 1)] :: ((int, string) cache_op \<times> TimeStamp) list"
  let ?ops = "[(Get (1::int), 3), (Put 2 ''c'', 4)] :: ((int, string) cache_op \<times> TimeStamp) list"
  have fresh: "cp_fresh ?init" by (simp add: lruk_new_def)
  have run0: "cp_run ?pre ?init = Inr ?e" by (simp add: lruk_eval)
  have put: "cp_put 1 ''b'' 2 ?e = Inr ?e1" by (simp add: lruk_eval)
  have run: "cp_run ?ops ?e1 = Inr ?e2" by (simp add: lruk_eval)
  have kth: "getHistoryAccessCount 1 \<lparr>lruk_capacity = 3, lruk_k = 2,
                 lruk_history = [(1::int, \<lparr>h_key = 1, h_access_times = [1]\<rparr>)],
                 lruk_cache = ([] :: (int \<times> (int, string) CacheRecord) list)\<rparr> + 1 = 2"
    by (simp add: getHistoryAccessCount_def)
  have noput: "\<forall>x \<in> set ?ops. \<forall>v'. fst x \<noteq> Put 1 v'" by simp
  have stays: "\<forall>n \<le> length ?ops. \<forall>e'. cp_run (take n ?ops) ?e1 = Inr e' \<longrightarrow> cp_contains 1 e'"
  proof (intro allI impI)
    fix n e'
    assume "n \<le> length ?ops" and r: "cp_run (take n ?ops) ?e1 = Inr e'"
    then have "n = 0 \<or> n = 1 \<or> n = 2" by auto
    then show "cp_contains 1 e'"
      using r by (auto simp: lruk_eval)
  qed
  from put_then_get_round_trip [OF fresh run0, of 1 "''b''" 2] put
  have vis: "cp_contains 1 ?e1 \<longleftrightarrow>
               (\<forall>s. ?e = LRU_K s \<longrightarrow>
                    lruk_contains 1 s \<or> getHistoryAccessCount 1 s + 1 = lruk_k s)"
    and later: "\<forall>ops e2 now'.
              cp_contains 1 ?e1 \<and> cp_run ops ?e1 = Inr e2 \<and>
              (\<forall>x \<in> set ops. \<forall>v'. fst x \<noteq> Put 1 v') \<and>
              (\<forall>n \<le> length ops. \<forall>e'. cp_run (take n ops) ?e1 = Inr e' \<longrightarrow> cp_contains 1 e')
              \<longrightarrow> fst (cp_get 1 now' e2) = Inr ''b''"
    by auto
  from vis kth have c: "cp_contains 1 ?e1" by simp
  from later c run noput stays have "fst (cp_get 1 5 ?e2) = Inr ''b''" by blast
  with fresh run0 put c run show ?thesis by simp
qed

subsection \<open>Size and capacity of the engines that keep the bound\<close>

text \<open>
  The invariants hold along every run of the LRU, FIFO and LRU-K engines, and along every
  run of the LFU engine that is too short for a counter to overflow; under them \<open>size()\<close>
  is the number of keys of the index, and for LRU, LFU and FIFO it is at most
  \<open>capacity()\<close>.
\<close>

lemma cp_run_inv:
  assumes "cp_inv e" and "\<forall>s. e \<noteq> LFU s"
  shows "\<exists>e'. cp_run ops e = Inr e' \<and> cp_inv e'"
proof (cases e)
  case (LRU s)
  with assms cp_run_lru_inv [of s ops] show ?thesis by auto
next
  case (LFU s)
  with assms(2) show ?thesis by simp
next
  case (FIFO s)
  with assms cp_run_fifo_inv [of s ops] show ?thesis by auto
next
  case (LRU_K s)
  with assms cp_run_lruk_inv [of s ops] show ?thesis by auto
qed

lemma cp_run_inv_lfu:
  assumes "lfu_new capacity = Inr s0" and "int (length ops) \<le> INT_MAX"
  shows "\<exists>s. cp_run ops (LFU s0) = Inr (LFU s) \<and> cp_inv (LFU s)"
  using cp_run_lfu_inv [OF lfu_new_inv [OF assms(1)] lfu_new_freq_le [OF assms(1)], of ops]
    assms(2)
  by auto

lemma size_is_index_count:
  assumes "cp_inv e"
  shows "cp_size e = int (cp_index_count e)"
proof (cases e)
  case (LRU s)
  with assms have "distinct (lru_list s)" "set (lru_list s) = dom (lru_cache s)"
    "lru_size s = int (length (lru_list s))" by (simp_all add: lru_inv_def)
  then have "lru_size s = int (card (dom (lru_cache s)))"
    by (metis distinct_card)
  with LRU show ?thesis by simp
next
  case (LFU s)
  then show ?thesis by (simp add: lfu_size_def)
next
  case (FIFO s)
  with assms have "distinct (fifo_queue s)" "set (fifo_queue s) = dom (fifo_cache s)"
    "fifo_size s = int (length (fifo_queue s))" by (simp_all add: fifo_inv_def)
  then have "fifo_size s = int (card (dom (fifo_cache s)))"
    by (metis distinct_card)
  with FIFO show ?thesis by simp
next
  case (LRU_K s)
  with assms have "distinct (map fst (lruk_cache s))" by (simp add: lruk_inv_def)
  then have "card (set (map fst (lruk_cache s))) = length (map fst (lruk_cache s))"
    by (rule distinct_card)
  with LRU_K show ?thesis by (simp add: lruk_size_def)
qed

lemma size_within_capacity_except_lruk:
  assumes "cp_inv e" and "\<forall>s. e \<noteq> LRU_K s"
  shows "cp_size e \<le> cp_capacity e"
  using assms by (cases e) (simp_all add: lru_inv_def lfu_inv_def fifo_inv_def)

end
